theory Spec2Isabelle
  imports Complex_Main "HOL-Library.AList" "HOL-Library.Word"
begin

section \<open>JavaScript strings and Node's POSIX path module\<close>

text \<open>
  The class \<open>DiskIO\<close> builds every path with \<open>join\<close> of \<open>node:path\<close> and with
  \<open>String.prototype.split\<close>. Both are library code; they are modelled here by what they
  compute on strings of bytes. A JavaScript number is an \<open>int\<close> (the values involved are
  sizes and offsets, exact in a double below \<open>2^53\<close>).
\<close>

text \<open>\<open>s.split(c)\<close> for a one-character separator: \<open>''''.split(c)\<close> is \<open>['''']\<close>.\<close>

fun split_on :: "char \<Rightarrow> string \<Rightarrow> string list" where
  "split_on c [] = [[]]"
| "split_on c (x # xs) =
     (if x = c then [] # split_on c xs
      else (case split_on c xs of
              [] \<Rightarrow> [[x]]
            | s # ss \<Rightarrow> (x # s) # ss))"

text \<open>\<open>xs.filter(Boolean)\<close> on an array of strings keeps the non-empty ones.\<close>

definition filter_Boolean :: "string list \<Rightarrow> string list" where
  "filter_Boolean xs = filter (\<lambda>s. s \<noteq> []) xs"

text \<open>\<open>xs.join(sep)\<close>.\<close>

fun join_with :: "string \<Rightarrow> string list \<Rightarrow> string" where
  "join_with sep [] = []"
| "join_with sep [s] = s"
| "join_with sep (s # t # ss) = s @ sep @ join_with sep (t # ss)"

text \<open>
  \<open>normalizeString\<close> of \<open>node:path\<close>, on the segments of the path: an empty segment and
  \<open>.\<close> are dropped, \<open>..\<close> removes the segment before it; where there is none (or it is
  itself \<open>..\<close>), \<open>..\<close> is kept when \<open>allowAboveRoot\<close> holds and dropped otherwise. The
  third argument is the result so far, last segment first.
\<close>

fun normalizeString :: "bool \<Rightarrow> string list \<Rightarrow> string list \<Rightarrow> string list" where
  "normalizeString allowAboveRoot [] res = rev res"
| "normalizeString allowAboveRoot (s # ss) res =
     (if s = [] \<or> s = ''.'' then normalizeString allowAboveRoot ss res
      else if s = ''..'' then
        (case res of
           [] \<Rightarrow> normalizeString allowAboveRoot ss (if allowAboveRoot then [''..''] else [])
         | t # ts \<Rightarrow>
             if t = ''..''
             then normalizeString allowAboveRoot ss (if allowAboveRoot then ''..'' # res else res)
             else normalizeString allowAboveRoot ss ts)
      else normalizeString allowAboveRoot ss (s # res))"

text \<open>\<open>path.posix.normalize\<close>: a trailing separator is kept.\<close>

definition normalize_path :: "string \<Rightarrow> string" where
  "normalize_path path =
     (if path = [] then ''.''
      else
        let isAbsolute = (hd path = CHR ''/'');
            trailingSeparator = (last path = CHR ''/'');
            res = join_with ''/'' (normalizeString (\<not> isAbsolute) (split_on CHR ''/'' path) [])
        in if res = [] then (if isAbsolute then ''/'' else if trailingSeparator then ''./'' else ''.'')
           else (if isAbsolute then ''/'' else []) @ res @ (if trailingSeparator then ''/'' else []))"

text \<open>\<open>path.posix.join(...args)\<close>: the non-empty arguments, joined by \<open>/\<close>, normalized.\<close>

definition join :: "string list \<Rightarrow> string" where
  "join args =
     (let joined = filter (\<lambda>a. a \<noteq> []) args
      in if joined = [] then ''.'' else normalize_path (join_with ''/'' joined))"

text \<open>\<open>s.replace(pattern, '''')\<close> with a string pattern: the first occurrence is removed.\<close>

fun replace_first :: "string \<Rightarrow> string \<Rightarrow> string" where
  "replace_first pat [] = []"
| "replace_first pat (c # cs) =
     (if take (length pat) (c # cs) = pat then drop (length pat) (c # cs)
      else c # replace_first pat cs)"

section \<open>The file system\<close>

text \<open>
  The state the class works on. A file is named by the list of its path segments from
  the root directory; the root itself is always a directory. \<open>fds\<close> are the open file
  handles with the file each one is open on; \<open>trace\<close> records, in order, the calls
  that changed the file system or went to a file handle.
\<close>

type_synonym byte = "8 word"
type_synonym path = "string list"

datatype node = File "byte list" | Dir

datatype event =
    WriteFile path
  | Truncate path nat
  | Mkdir path
  | Unlink path
  | Rmdir path
  | Close nat
  | FhWrite nat int int int
  | FhRead nat int int int

datatype error =
    Error string
  | ENOENT | ENOTDIR | EISDIR | EEXIST | ENOTEMPTY | EBADF | EBUSY | EINVAL
  | ERR_OUT_OF_RANGE | ERR_INVALID_ARG_VALUE

record world =
  nodes :: "(path \<times> node) list"
  cwd :: path
  fds :: "(nat \<times> path) list"
  dir_size :: nat
  block_size :: int
  trace :: "event list"

text \<open>
  How the kernel reads a path string (no symbolic links): from the root when it starts
  with \<open>/\<close>, from the working directory otherwise. The paths \<open>DiskIO\<close> passes are never
  empty.
\<close>

fun walk :: "path \<Rightarrow> string list \<Rightarrow> path" where
  "walk p [] = p"
| "walk p (s # ss) =
     (if s = [] \<or> s = ''.'' then walk p ss
      else if s = ''..'' then walk (butlast p) ss
      else walk (p @ [s]) ss)"

definition kresolve :: "world \<Rightarrow> string \<Rightarrow> path" where
  "kresolve w s =
     walk (if s \<noteq> [] \<and> hd s = CHR ''/'' then [] else cwd w) (split_on CHR ''/'' s)"

definition lookup :: "world \<Rightarrow> path \<Rightarrow> node option" where
  "lookup w p = (if p = [] then Some Dir else map_of (nodes w) p)"

definition node_size :: "world \<Rightarrow> node \<Rightarrow> nat" where
  "node_size w n = (case n of File c \<Rightarrow> length c | Dir \<Rightarrow> dir_size w)"

text \<open>The names in a directory, as \<open>readdir\<close> lists them.\<close>

definition children :: "world \<Rightarrow> path \<Rightarrow> string list" where
  "children w p = map (\<lambda>(q, n). last q) (filter (\<lambda>(q, n). q \<noteq> [] \<and> butlast q = p) (nodes w))"

text \<open>\<open>access(path, F_OK)\<close> succeeds.\<close>

definition fs_access :: "world \<Rightarrow> string \<Rightarrow> bool" where
  "fs_access w s = (lookup w (kresolve w s) \<noteq> None)"

text \<open>\<open>exists\<close> of \<open>src/common/fs-extends.ts\<close>: true when \<open>access\<close> succeeds, false when it throws.\<close>

definition exists_path :: "world \<Rightarrow> string \<Rightarrow> bool" where
  "exists_path w s = (if fs_access w s then True else False)"

text \<open>\<open>existsSync\<close> of \<open>node:fs\<close>.\<close>

definition existsSync :: "world \<Rightarrow> string \<Rightarrow> bool" where
  "existsSync w s = fs_access w s"

text \<open>\<open>(await stat(path)).size\<close> and \<open>statSync(path).size\<close>.\<close>

definition stat_size :: "world \<Rightarrow> string \<Rightarrow> error + int" where
  "stat_size w s =
     (case lookup w (kresolve w s) of
        None \<Rightarrow> Inl ENOENT
      | Some n \<Rightarrow> Inr (int (node_size w n)))"

definition statSync_size :: "world \<Rightarrow> string \<Rightarrow> error + int" where
  "statSync_size w s =
     (case lookup w (kresolve w s) of
        None \<Rightarrow> Inl ENOENT
      | Some n \<Rightarrow> Inr (int (node_size w n)))"

text \<open>\<open>statSync(path).isDirectory()\<close>.\<close>

definition statSync_isDirectory :: "world \<Rightarrow> string \<Rightarrow> error + bool" where
  "statSync_isDirectory w s =
     (case lookup w (kresolve w s) of
        None \<Rightarrow> Inl ENOENT
      | Some n \<Rightarrow> Inr (n = Dir))"

text \<open>
  \<open>writeFile(path, Buffer.alloc(0))\<close>: the file is created, or emptied when it exists.
\<close>

definition create_empty :: "world \<Rightarrow> string \<Rightarrow> (error + unit) \<times> world" where
  "create_empty w s =
     (let p = kresolve w s in
      case lookup w p of
        Some Dir \<Rightarrow> (Inl EISDIR, w)
      | _ \<Rightarrow>
         (case lookup w (butlast p) of
            None \<Rightarrow> (Inl ENOENT, w)
          | Some (File c) \<Rightarrow> (Inl ENOTDIR, w)
          | Some Dir \<Rightarrow>
              (Inr (), w\<lparr>nodes := AList.update p (File []) (nodes w),
                         trace := trace w @ [WriteFile p]\<rparr>)))"

definition writeFile :: "world \<Rightarrow> string \<Rightarrow> (error + unit) \<times> world" where
  "writeFile w s = create_empty w s"

definition writeFileSync :: "world \<Rightarrow> string \<Rightarrow> (error + unit) \<times> world" where
  "writeFileSync w s = create_empty w s"

text \<open>
  \<open>truncate(path, len)\<close>: the file is opened with \<open>r+\<close> and cut or extended with zero
  bytes to \<open>len\<close> bytes. Node uses \<open>0\<close> for a negative \<open>len\<close> (\<open>len = Math.max(0, len)\<close>).
  The two functions are named \<open>fs_truncate\<close> and \<open>fs_truncateSync\<close> here.
\<close>

definition resize :: "byte list \<Rightarrow> nat \<Rightarrow> byte list" where
  "resize c n = take n c @ replicate (n - length c) 0"

definition set_length :: "world \<Rightarrow> string \<Rightarrow> int \<Rightarrow> (error + unit) \<times> world" where
  "set_length w s len =
     (let p = kresolve w s in
      case lookup w p of
        None \<Rightarrow> (Inl ENOENT, w)
      | Some Dir \<Rightarrow> (Inl EISDIR, w)
      | Some (File c) \<Rightarrow>
          (Inr (), w\<lparr>nodes := AList.update p (File (resize c (nat (max 0 len)))) (nodes w),
                     trace := trace w @ [Truncate p (nat (max 0 len))]\<rparr>))"

definition fs_truncate :: "world \<Rightarrow> string \<Rightarrow> int \<Rightarrow> (error + unit) \<times> world" where
  "fs_truncate w s len = set_length w s len"

definition fs_truncateSync :: "world \<Rightarrow> string \<Rightarrow> int \<Rightarrow> (error + unit) \<times> world" where
  "fs_truncateSync w s len = set_length w s len"

text \<open>\<open>mkdir(path, { recursive: true })\<close>: every missing directory of the path is made.\<close>

fun make_dirs :: "world \<Rightarrow> path \<Rightarrow> string list \<Rightarrow> (error + unit) \<times> world" where
  "make_dirs w p [] = (Inr (), w)"
| "make_dirs w p (s # ss) =
     (case lookup w (p @ [s]) of
        Some Dir \<Rightarrow> make_dirs w (p @ [s]) ss
      | Some (File c) \<Rightarrow> (Inl (if ss = [] then EEXIST else ENOTDIR), w)
      | None \<Rightarrow>
          make_dirs (w\<lparr>nodes := AList.update (p @ [s]) Dir (nodes w),
                       trace := trace w @ [Mkdir (p @ [s])]\<rparr>) (p @ [s]) ss)"

definition mkdir :: "world \<Rightarrow> string \<Rightarrow> (error + unit) \<times> world" where
  "mkdir w s = make_dirs w [] (kresolve w s)"

definition mkdirSync :: "world \<Rightarrow> string \<Rightarrow> (error + unit) \<times> world" where
  "mkdirSync w s = make_dirs w [] (kresolve w s)"

text \<open>\<open>unlink(path)\<close>, \<open>readdir(path)\<close>, \<open>rmdir(path)\<close>.\<close>

definition unlink :: "world \<Rightarrow> string \<Rightarrow> (error + unit) \<times> world" where
  "unlink w s =
     (let p = kresolve w s in
      case lookup w p of
        None \<Rightarrow> (Inl ENOENT, w)
      | Some Dir \<Rightarrow> (Inl EISDIR, w)
      | Some (File c) \<Rightarrow>
          (Inr (), w\<lparr>nodes := AList.delete p (nodes w), trace := trace w @ [Unlink p]\<rparr>))"

definition readdir :: "world \<Rightarrow> string \<Rightarrow> error + string list" where
  "readdir w s =
     (let p = kresolve w s in
      case lookup w p of
        None \<Rightarrow> Inl ENOENT
      | Some (File c) \<Rightarrow> Inl ENOTDIR
      | Some Dir \<Rightarrow> Inr (children w p))"

definition rmdir :: "world \<Rightarrow> string \<Rightarrow> (error + unit) \<times> world" where
  "rmdir w s =
     (let p = kresolve w s in
      case lookup w p of
        None \<Rightarrow> (Inl ENOENT, w)
      | Some (File c) \<Rightarrow> (Inl ENOTDIR, w)
      | Some Dir \<Rightarrow>
          if p = [] then (Inl EBUSY, w)
          else if children w p \<noteq> [] then (Inl ENOTEMPTY, w)
          else (Inr (), w\<lparr>nodes := AList.delete p (nodes w), trace := trace w @ [Rmdir p]\<rparr>))"

text \<open>
  The commands \<open>du\<close> and \<open>stat\<close> are run by a shell: \<open>exec\<close> and \<open>execSync\<close> hand it the
  command line, into which the class pastes the folder as it is, without quotes. The
  shell passes a word on as it is written when the word has no blank and no character
  that the shell reads as an operator, a quote, an expansion or a pattern (the
  characters \<open>!#$%&()*;<=>?[]^{|}~\<close>, the two quotes, the backquote and the
  backslash), and the command takes the word for its operand when it does not start
  with a dash.
\<close>

definition shell_special :: "char \<Rightarrow> bool" where
  "shell_special c =
     (of_char c \<le> (32 :: nat) \<or> of_char c = (127 :: nat)
      \<or> c \<in> set (''!#$%&()*;<=>?[]^{|}~'' @ [CHR 0x22, CHR 0x27, CHR 0x5C, CHR 0x60]))"

definition shell_word :: "string \<Rightarrow> bool" where
  "shell_word s = (s \<noteq> [] \<and> hd s \<noteq> CHR ''-'' \<and> list_all (\<lambda>c. \<not> shell_special c) s)"

text \<open>
  What \<open>du -sb\<close> followed by the folder prints first: the apparent size of the folder,
  the sum of the sizes of the folder itself and of everything below it. For a folder
  that is not such a word the command line does not name the folder as the one operand
  of \<open>du\<close>: the model has the call throw, as it does when the words the folder is
  split into name no file, and covers no more of the shell than this.
\<close>

definition is_under :: "path \<Rightarrow> path \<Rightarrow> bool" where
  "is_under d p = (take (length d) p = d)"

definition usage :: "world \<Rightarrow> path \<Rightarrow> nat" where
  "usage w d =
     (if d = [] then dir_size w else 0) +
     sum_list (map (\<lambda>(p, n). node_size w n) (filter (\<lambda>(p, n). is_under d p) (nodes w)))"

definition du_sb :: "world \<Rightarrow> string \<Rightarrow> error + int" where
  "du_sb w s =
     (if \<not> shell_word s then Inl (Error ''Command failed'')
      else case lookup w (kresolve w s) of
        None \<Rightarrow> Inl (Error ''Command failed'')
      | Some n \<Rightarrow> Inr (int (usage w (kresolve w s))))"

text \<open>
  What \<open>stat -f -c "%S"\<close> followed by the folder prints: the block size of the file
  system. The folder goes through the shell in the same way.
\<close>

definition stat_block :: "world \<Rightarrow> string \<Rightarrow> error + int" where
  "stat_block w s =
     (if \<not> shell_word s then Inl (Error ''Command failed'')
      else case lookup w (kresolve w s) of
        None \<Rightarrow> Inl (Error ''Command failed'')
      | Some n \<Rightarrow> Inr (block_size w))"

section \<open>File handles and buffers\<close>

text \<open>
  A \<open>FileHandle\<close> is the number of an entry of \<open>fds\<close>. \<open>fh.close()\<close> on a handle that
  is closed already resolves without an error.
\<close>

definition fh_file :: "world \<Rightarrow> nat \<Rightarrow> (path \<times> byte list) option" where
  "fh_file w fh =
     (case map_of (fds w) fh of
        None \<Rightarrow> None
      | Some p \<Rightarrow> (case lookup w p of Some (File c) \<Rightarrow> Some (p, c) | _ \<Rightarrow> None))"

definition fh_close :: "world \<Rightarrow> nat \<Rightarrow> (error + unit) \<times> world" where
  "fh_close w fh =
     (case map_of (fds w) fh of
        None \<Rightarrow> (Inr (), w)
      | Some p \<Rightarrow> (Inr (), w\<lparr>fds := AList.delete fh (fds w), trace := trace w @ [Close fh]\<rparr>))"

text \<open>\<open>(await fh.stat()).size\<close>.\<close>

definition fh_stat_size :: "world \<Rightarrow> nat \<Rightarrow> error + int" where
  "fh_stat_size w fh =
     (case fh_file w fh of
        None \<Rightarrow> Inl EBADF
      | Some (p, c) \<Rightarrow> Inr (int (length c)))"

text \<open>
  \<open>Buffer.alloc(n)\<close>: \<open>n\<close> zero bytes; a negative size is refused.
\<close>

definition Buffer_alloc :: "int \<Rightarrow> error + byte list" where
  "Buffer_alloc n = (if n < 0 then Inl ERR_OUT_OF_RANGE else Inr (replicate (nat n) 0))"

text \<open>
  What \<open>pwrite\<close> and \<open>pread\<close> do to a file's bytes: a write past the end fills the gap
  with zero bytes, a write of no bytes leaves the file as it is, a read stops at the end.
\<close>

definition pwrite :: "byte list \<Rightarrow> nat \<Rightarrow> byte list \<Rightarrow> byte list" where
  "pwrite c pos bs =
     (if bs = [] then c
      else take pos c @ replicate (pos - length c) 0 @ bs @ drop (pos + length bs) c)"

definition pread :: "byte list \<Rightarrow> nat \<Rightarrow> nat \<Rightarrow> byte list" where
  "pread c pos n = take n (drop pos c)"

text \<open>Storing bytes into a buffer that has room for them.\<close>

definition fill :: "byte list \<Rightarrow> nat \<Rightarrow> byte list \<Rightarrow> byte list" where
  "fill buffer offset bs = take offset buffer @ bs @ drop (offset + length bs) buffer"

text \<open>
  \<open>fh.write(buffer, offset, length, position)\<close>, with Node's checks in Node's order: a
  closed handle, an empty buffer (nothing is checked or written), then the range of
  \<open>offset\<close> and \<open>length\<close> in the buffer. The result is the number of bytes written.
  \<open>DiskIO\<close> passes the same number as \<open>offset\<close> and as \<open>position\<close>, so a negative
  \<open>position\<close> is refused as an offset before it is read as a position.
\<close>

definition fh_write ::
  "world \<Rightarrow> nat \<Rightarrow> byte list \<Rightarrow> int \<Rightarrow> int \<Rightarrow> int \<Rightarrow> (error + nat) \<times> world" where
  "fh_write w fh buffer offset len position =
     (case fh_file w fh of
        None \<Rightarrow> (Inl EBADF, w)
      | Some (p, c) \<Rightarrow>
          if buffer = [] then (Inr 0, w)
          else if offset < 0 then (Inl ERR_OUT_OF_RANGE, w)
          else if offset > int (length buffer) then (Inl ERR_OUT_OF_RANGE, w)
          else if len > int (length buffer) - offset then (Inl ERR_OUT_OF_RANGE, w)
          else if len < 0 then (Inl ERR_OUT_OF_RANGE, w)
          else if position < 0 then (Inl EINVAL, w)
          else
            let bs = take (nat len) (drop (nat offset) buffer)
            in (Inr (length bs),
                w\<lparr>nodes := AList.update p (File (pwrite c (nat position) bs)) (nodes w),
                  trace := trace w @ [FhWrite fh offset len position]\<rparr>))"

text \<open>
  \<open>fh.read(buffer, offset, length, position)\<close>, with Node's checks in Node's order. The
  buffer is changed in place: the result is the buffer after the call.
\<close>

definition fh_read ::
  "world \<Rightarrow> nat \<Rightarrow> byte list \<Rightarrow> int \<Rightarrow> int \<Rightarrow> int \<Rightarrow> (error + byte list) \<times> world" where
  "fh_read w fh buffer offset len position =
     (case fh_file w fh of
        None \<Rightarrow> (Inl EBADF, w)
      | Some (p, c) \<Rightarrow>
          if offset < 0 then (Inl ERR_OUT_OF_RANGE, w)
          else if len = 0 then (Inr buffer, w)
          else if buffer = [] then (Inl ERR_INVALID_ARG_VALUE, w)
          else if len < 0 then (Inl ERR_OUT_OF_RANGE, w)
          else if offset + len > int (length buffer) then (Inl ERR_OUT_OF_RANGE, w)
          else if position < 0 then (Inl EINVAL, w)
          else
            (Inr (fill buffer (nat offset) (pread c (nat position) (nat len))),
             w\<lparr>trace := trace w @ [FhRead fh offset len position]\<rparr>))"

section \<open>JavaScript numbers that are not integers\<close>

datatype number = Num int | PosInfinity | NegInfinity | NaN

text \<open>\<open>Math.ceil(a / b)\<close> for integers \<open>a\<close> and \<open>b\<close>.\<close>

definition ceil_div :: "int \<Rightarrow> int \<Rightarrow> number" where
  "ceil_div a b =
     (if b = 0 then (if a = 0 then NaN else if a > 0 then PosInfinity else NegInfinity)
      else Num (- ((- a) div b)))"

text \<open>\<open>index < n\<close> for an integer \<open>index\<close>.\<close>

definition less_number :: "int \<Rightarrow> number \<Rightarrow> bool" where
  "less_number index n =
     (case n of Num k \<Rightarrow> index < k | PosInfinity \<Rightarrow> True | NegInfinity \<Rightarrow> False | NaN \<Rightarrow> False)"

text \<open>
  A number with a fraction is a double. A finite double is kept as the rational number
  it stands for, and the result of an operation is the double nearest to the exact
  result: for \<open>2 ^ e \<le> |x| < 2 ^ (e + 1)\<close> the doubles around \<open>x\<close> are the multiples of
  \<open>2 ^ (e - 52)\<close>, and of two multiples that are as near the one with the even
  multiplier is taken. The bounds of the exponent of a double are left out: the
  quotient of two file sizes, its product with 100 and the difference from 100 stay
  far from them.
\<close>

definition pow2 :: "int \<Rightarrow> rat" where
  "pow2 e = (if 0 \<le> e then 2 ^ nat e else 1 / 2 ^ nat (- e))"

text \<open>
  The number of binary digits of a positive integer, and with it the exponent \<open>e\<close> with
  \<open>2 ^ e \<le> |x| < 2 ^ (e + 1)\<close>, for \<open>x\<close> other than 0.
\<close>

function bit_length :: "int \<Rightarrow> int" where
  "bit_length k = (if k \<le> 0 then 0 else 1 + bit_length (k div 2))"
  by pat_completeness auto
termination by (relation "measure nat") auto

declare bit_length.simps [simp del]

definition binade :: "rat \<Rightarrow> int" where
  "binade x =
     (if 1 \<le> \<bar>x\<bar> then bit_length \<lfloor>\<bar>x\<bar>\<rfloor> - 1
      else - bit_length (\<lceil>1 / \<bar>x\<bar>\<rceil> - 1))"

text \<open>The integer nearest to \<open>x\<close>, the even one of two that are as near.\<close>

definition round_even :: "rat \<Rightarrow> int" where
  "round_even x =
     (let f = \<lfloor>x\<rfloor>; r = x - of_int f
      in if r < 1 / 2 then f else if 1 / 2 < r then f + 1 else if even f then f else f + 1)"

definition to_double :: "rat \<Rightarrow> rat" where
  "to_double x =
     (if x = 0 then 0
      else of_int (round_even (x / pow2 (binade x - 52))) * pow2 (binade x - 52))"

datatype double = Finite rat | Plus_Infinity | Minus_Infinity | Not_a_Number

text \<open>
  \<open>a / b\<close> for integers \<open>a\<close> and \<open>b\<close>, \<open>x * k\<close> for a finite \<open>k\<close> above 0, and \<open>k - x\<close>
  for a finite \<open>k\<close>.
\<close>

definition divide_double :: "int \<Rightarrow> int \<Rightarrow> double" where
  "divide_double a b =
     (if b = 0
      then (if a = 0 then Not_a_Number else if 0 < a then Plus_Infinity else Minus_Infinity)
      else Finite (to_double (of_int a / of_int b)))"

definition times_double :: "double \<Rightarrow> rat \<Rightarrow> double" where
  "times_double x k =
     (case x of
        Finite q \<Rightarrow> Finite (to_double (q * k))
      | Plus_Infinity \<Rightarrow> Plus_Infinity
      | Minus_Infinity \<Rightarrow> Minus_Infinity
      | Not_a_Number \<Rightarrow> Not_a_Number)"

definition minus_double :: "rat \<Rightarrow> double \<Rightarrow> double" where
  "minus_double k x =
     (case x of
        Finite q \<Rightarrow> Finite (to_double (k - q))
      | Plus_Infinity \<Rightarrow> Minus_Infinity
      | Minus_Infinity \<Rightarrow> Plus_Infinity
      | Not_a_Number \<Rightarrow> Not_a_Number)"

text \<open>
  \<open>Math.round x\<close>: the integer nearest to \<open>x\<close>, the larger one of two that are as
  near.
\<close>

definition Math_round :: "double \<Rightarrow> number" where
  "Math_round x =
     (case x of
        Finite q \<Rightarrow> Num \<lfloor>q + 1 / 2\<rfloor>
      | Plus_Infinity \<Rightarrow> PosInfinity
      | Minus_Infinity \<Rightarrow> NegInfinity
      | Not_a_Number \<Rightarrow> NaN)"

text \<open>\<open>Math.round(100 - (used / size) * 100)\<close>.\<close>

definition capacity_percent :: "int \<Rightarrow> int \<Rightarrow> number" where
  "capacity_percent used sz =
     Math_round (minus_double 100 (times_double (divide_double used sz) 100))"

text \<open>The string a template literal makes of such a number.\<close>

fun nat_string :: "nat \<Rightarrow> string" where
  "nat_string n =
     (if n < 10 then [''0123456789'' ! n]
      else nat_string (n div 10) @ [''0123456789'' ! (n mod 10)])"

declare nat_string.simps [simp del]

definition number_string :: "number \<Rightarrow> string" where
  "number_string x =
     (case x of
        Num k \<Rightarrow> (if k < 0 then ''-'' @ nat_string (nat (- k)) else nat_string (nat k))
      | PosInfinity \<Rightarrow> ''Infinity''
      | NegInfinity \<Rightarrow> ''-Infinity''
      | NaN \<Rightarrow> ''NaN'')"

section \<open>The class DiskIO\<close>

record diskio =
  RESERVED_SIZE :: int
  path_folder :: string
  path_diskio :: string
  optimal :: int

definition RESERVED_FILE :: string where
  "RESERVED_FILE = ''diskio.dat''"

text \<open>
  The class \<open>DiskIOFile\<close> is not part of the sources: a file object is kept as the
  arguments its constructor is called with, and how its promise \<open>ready\<close> settles is a
  parameter of \<open>get\<close> and \<open>create\<close>, a function of the file object and the state:
  \<open>Some (Inr ())\<close> when the promise resolves, \<open>Some (Inl e)\<close> when it rejects with
  \<open>e\<close>, \<open>None\<close> when it never settles.
\<close>

datatype diskio_file = DiskIOFile diskio "string list"

type_synonym ready_promise = "diskio_file \<Rightarrow> world \<Rightarrow> (error + unit) option"

subsection \<open>The constructor\<close>

text \<open>
  The constructor checks its arguments and sets the fields; the promise \<open>ready\<close> then
  stabilizes the folder and reads the block size.
\<close>

definition size_block :: "diskio \<Rightarrow> world \<Rightarrow> error + int" where
  "size_block d w = stat_block w (path_folder d)"

definition size_diskio :: "diskio \<Rightarrow> world \<Rightarrow> error + int" where
  "size_diskio d w = stat_size w (path_diskio d)"

definition size_diskioSync :: "diskio \<Rightarrow> world \<Rightarrow> error + int" where
  "size_diskioSync d w = statSync_size w (path_diskio d)"

definition size_folder :: "diskio \<Rightarrow> world \<Rightarrow> error + int" where
  "size_folder d w = du_sb w (path_folder d)"

definition size_folderSync :: "diskio \<Rightarrow> world \<Rightarrow> error + int" where
  "size_folderSync d w = du_sb w (path_folder d)"

definition constructor :: "world \<Rightarrow> string \<Rightarrow> int \<Rightarrow> error + diskio" where
  "constructor w path sz =
     (if \<not> existsSync w path then Inl (Error ''The path does not exist'')
      else case statSync_isDirectory w path of
        Inl e \<Rightarrow> Inl e
      | Inr isDirectory \<Rightarrow>
          if \<not> isDirectory then Inl (Error ''The path is not a directory'')
          else if sz \<le> 0 then Inl (Error ''The size must be positive'')
          else Inr \<lparr>RESERVED_SIZE = sz,
                    path_folder = join [path],
                    path_diskio = join [path] @ ''/'' @ RESERVED_FILE,
                    optimal = 4096\<rparr>)"

subsection \<open>stabilize and allocate\<close>

definition stabilize :: "diskio \<Rightarrow> int \<Rightarrow> world \<Rightarrow> (error + unit) \<times> world" where
  "stabilize d expected w =
     (let diskioExists = exists_path w (path_diskio d) in
      case (if \<not> diskioExists then writeFile w (path_diskio d) else (Inr (), w)) of
        (Inl e, w1) \<Rightarrow> (Inl e, w1)
      | (Inr u, w1) \<Rightarrow>
          (case size_diskio d w1 of
             Inl e \<Rightarrow> (Inl e, w1)
           | Inr diskio \<Rightarrow>
               (case size_folder d w1 of
                  Inl e \<Rightarrow> (Inl e, w1)
                | Inr folder \<Rightarrow>
                    let difference = expected - folder + diskio
                    in fs_truncate w1 (path_diskio d) difference)))"

definition stabilizeSync :: "diskio \<Rightarrow> int \<Rightarrow> world \<Rightarrow> (error + unit) \<times> world" where
  "stabilizeSync d expected w =
     (let diskioExists = existsSync w (path_diskio d) in
      case (if \<not> diskioExists then writeFileSync w (path_diskio d) else (Inr (), w)) of
        (Inl e, w1) \<Rightarrow> (Inl e, w1)
      | (Inr u, w1) \<Rightarrow>
          (case size_diskioSync d w1 of
             Inl e \<Rightarrow> (Inl e, w1)
           | Inr diskio \<Rightarrow>
               (case size_folderSync d w1 of
                  Inl e \<Rightarrow> (Inl e, w1)
                | Inr folder \<Rightarrow>
                    let difference = expected - folder + diskio
                    in fs_truncateSync w1 (path_diskio d) difference)))"

definition allocate :: "diskio \<Rightarrow> int \<Rightarrow> world \<Rightarrow> (error + unit) \<times> world" where
  "allocate d sz w =
     (case size_diskio d w of
        Inl e \<Rightarrow> (Inl e, w)
      | Inr diskio \<Rightarrow>
          if sz > diskio then (Inl (Error ''The size is greater than the available size''), w)
          else fs_truncate w (path_diskio d) (diskio - sz))"

definition ready :: "diskio \<Rightarrow> int \<Rightarrow> world \<Rightarrow> (error + diskio) \<times> world" where
  "ready d sz w =
     (case stabilize d sz w of
        (Inl e, w1) \<Rightarrow> (Inl e, w1)
      | (Inr u, w1) \<Rightarrow>
          (case size_block d w1 of
             Inl e \<Rightarrow> (Inl e, w1)
           | Inr b \<Rightarrow> (Inr (d\<lparr>optimal := b\<rparr>), w1)))"

subsection \<open>information.diskio\<close>

record report =
  report_size :: int
  used :: int
  available :: int
  capacity :: string

definition information_diskio :: "diskio \<Rightarrow> world \<Rightarrow> error + report" where
  "information_diskio d w =
     (let sz = RESERVED_SIZE d - optimal d in
      case size_diskio d w of
        Inl e \<Rightarrow> Inl e
      | Inr av \<Rightarrow>
          (case size_folder d w of
             Inl e \<Rightarrow> Inl e
           | Inr folder \<Rightarrow>
               let us = folder - av;
                   cap = capacity_percent us sz
               in Inr \<lparr>report_size = sz, used = us, available = av,
                       capacity = number_string cap @ ''%''\<rparr>))"

subsection \<open>get and create\<close>

text \<open>
  \<open>get\<close> awaits the promise \<open>ready\<close> of the file object before it returns the object;
  \<open>getSync\<close> returns the object at once.
\<close>

definition get ::
  "ready_promise \<Rightarrow> diskio \<Rightarrow> string \<Rightarrow> world \<Rightarrow> (error + diskio_file) option" where
  "get rdy d name w =
     (let cleaned = filter_Boolean (split_on CHR ''/'' name);
          path = join (path_folder d # cleaned)
      in if path = path_diskio d then Some (Inl (Error ''The name is diskio storage file''))
         else
           let diskioFile = DiskIOFile d cleaned in
           case rdy diskioFile w of
             None \<Rightarrow> None
           | Some (Inl e) \<Rightarrow> Some (Inl e)
           | Some (Inr u) \<Rightarrow> Some (Inr diskioFile))"

definition getSync :: "diskio \<Rightarrow> string \<Rightarrow> error + diskio_file" where
  "getSync d name =
     (let cleaned = filter_Boolean (split_on CHR ''/'' name);
          path = join (path_folder d # cleaned)
      in if path = path_diskio d then Inl (Error ''The name is diskio storage file'')
         else Inr (DiskIOFile d cleaned))"

text \<open>
  \<open>create\<close> calls itself when the file exists already. Its third argument is the list
  of the values \<open>crypto.randomUUID()\<close> returns, one for each call; the result is \<open>None\<close>
  when the list is used up before a call returns.
\<close>

fun create ::
  "ready_promise \<Rightarrow> diskio \<Rightarrow> string \<Rightarrow> string list \<Rightarrow> world
    \<Rightarrow> ((error + diskio_file) \<times> world) option" where
  "create rdy d name [] w =
     (if name = [] then Some (Inl (Error ''The name is empty''), w) else None)"
| "create rdy d name (uuid # uuids) w =
     (if name = [] then Some (Inl (Error ''The name is empty''), w)
      else
        let path = join (path_folder d # split_on CHR ''-'' uuid) in
        case mkdir w path of
          (Inl e, w1) \<Rightarrow> Some (Inl e, w1)
        | (Inr u, w1) \<Rightarrow>
            let filePath = join [path, name] in
            if exists_path w1 filePath then create rdy d name uuids w1
            else
              (case writeFile w1 filePath of
                 (Inl e, w2) \<Rightarrow> Some (Inl e, w2)
               | (Inr u, w2) \<Rightarrow>
                   (case stabilize d (RESERVED_SIZE d) w2 of
                      (Inl e, w3) \<Rightarrow> Some (Inl e, w3)
                    | (Inr u, w3) \<Rightarrow>
                        (case get rdy d (replace_first (path_folder d) filePath) w3 of
                           None \<Rightarrow> None
                         | Some r \<Rightarrow> Some (r, w3)))))"

fun createSync ::
  "diskio \<Rightarrow> string \<Rightarrow> string list \<Rightarrow> world \<Rightarrow> ((error + diskio_file) \<times> world) option" where
  "createSync d name [] w =
     (if name = [] then Some (Inl (Error ''The name is empty''), w) else None)"
| "createSync d name (uuid # uuids) w =
     (if name = [] then Some (Inl (Error ''The name is empty''), w)
      else
        let path = join (path_folder d # split_on CHR ''-'' uuid) in
        case mkdirSync w path of
          (Inl e, w1) \<Rightarrow> Some (Inl e, w1)
        | (Inr u, w1) \<Rightarrow>
            let filePath = join [path, name] in
            if existsSync w1 filePath then createSync d name uuids w1
            else
              (case writeFileSync w1 filePath of
                 (Inl e, w2) \<Rightarrow> Some (Inl e, w2)
               | (Inr u, w2) \<Rightarrow>
                   (case stabilizeSync d (RESERVED_SIZE d) w2 of
                      (Inl e, w3) \<Rightarrow> Some (Inl e, w3)
                    | (Inr u, w3) \<Rightarrow>
                        Some (getSync d (replace_first (path_folder d) filePath), w3))))"

subsection \<open>read and write\<close>

text \<open>
  The two loops run while \<open>index < reads\<close> (\<open>index < writes\<close>); with a block size of
  zero the bound is infinite and the loop does not end, so the result of a loop is an
  option and \<open>None\<close> stands for a call that never returns. The method \<open>write\<close> is
  named \<open>diskio_write\<close>.
\<close>

partial_function (option) read_loop ::
  "diskio \<Rightarrow> nat \<Rightarrow> int \<Rightarrow> int \<Rightarrow> number \<Rightarrow> int \<Rightarrow> byte list \<Rightarrow> world
    \<Rightarrow> ((error + byte list) \<times> world) option" where
  "read_loop d fh start sz reads index buffer w =
     (if less_number index reads then
        (case fh_read w fh buffer
                (start + index * optimal d)
                (if start + index * optimal d + optimal d > sz
                 then sz - (start + index * optimal d) else optimal d)
                (start + index * optimal d) of
           (Inl e, w1) \<Rightarrow> Some (Inl e, w1)
         | (Inr buffer1, w1) \<Rightarrow> read_loop d fh start sz reads (index + 1) buffer1 w1)
      else Some (Inr buffer, w))"

declare read_loop.simps [code]

definition read ::
  "diskio \<Rightarrow> nat \<Rightarrow> int \<Rightarrow> int \<Rightarrow> world \<Rightarrow> ((error + byte list) \<times> world) option" where
  "read d fh start end w =
     (let difference = end - start in
      case fh_stat_size w fh of
        Inl e \<Rightarrow> Some (Inl e, w)
      | Inr sz \<Rightarrow>
          (case Buffer_alloc (end - start) of
             Inl e \<Rightarrow> Some (Inl e, w)
           | Inr buffer \<Rightarrow>
               let reads = ceil_div difference (optimal d)
               in read_loop d fh start sz reads 0 buffer w))"

partial_function (option) write_loop ::
  "diskio \<Rightarrow> nat \<Rightarrow> byte list \<Rightarrow> int \<Rightarrow> number \<Rightarrow> int \<Rightarrow> world
    \<Rightarrow> ((error + unit) \<times> world) option" where
  "write_loop d fh data position writes index w =
     (if less_number index writes then
        (case fh_write w fh data
                (position + index * optimal d)
                (if optimal d > int (length data) - (position + index * optimal d)
                 then int (length data) - (position + index * optimal d) else optimal d)
                (position + index * optimal d) of
           (Inl e, w1) \<Rightarrow> Some (Inl e, w1)
         | (Inr n, w1) \<Rightarrow> write_loop d fh data position writes (index + 1) w1)
      else Some (Inr (), w))"

declare write_loop.simps [code]

definition diskio_write ::
  "diskio \<Rightarrow> nat \<Rightarrow> byte list \<Rightarrow> int \<Rightarrow> world \<Rightarrow> ((error + unit) \<times> world) option" where
  "diskio_write d fh data position w =
     (case allocate d (int (length data)) w of
        (Inl e, w1) \<Rightarrow> Some (Inl e, w1)
      | (Inr u, w1) \<Rightarrow>
          let writes = ceil_div (int (length data)) (optimal d)
          in write_loop d fh data position writes 0 w1)"

subsection \<open>delete\<close>

text \<open>
  The loop \<open>while (copy.pop())\<close>: the second argument is \<open>copy\<close> with its last element
  first. \<open>pop\<close> gives \<open>undefined\<close> on the empty array, and an empty string is false too.
\<close>

fun delete_loop :: "diskio \<Rightarrow> string list \<Rightarrow> world \<Rightarrow> (error + unit) \<times> world" where
  "delete_loop d [] w = (Inr (), w)"
| "delete_loop d (popped # copy) w =
     (if popped = [] then (Inr (), w)
      else
        let parent = join (path_folder d # rev copy) in
        case readdir w parent of
          Inl e \<Rightarrow> (Inl e, w)
        | Inr readed \<Rightarrow>
            if length readed \<noteq> 0 then (Inr (), w)
            else (case rmdir w parent of
                    (Inl e, w1) \<Rightarrow> (Inl e, w1)
                  | (Inr u, w1) \<Rightarrow> delete_loop d copy w1))"

definition delete :: "diskio \<Rightarrow> nat \<Rightarrow> string list \<Rightarrow> world \<Rightarrow> (error + unit) \<times> world" where
  "delete d fh name w =
     (case fh_close w fh of
        (Inl e, w1) \<Rightarrow> (Inl e, w1)
      | (Inr u, w1) \<Rightarrow>
          let path = join (path_folder d # name) in
          (case unlink w1 (join [path]) of
             (Inl e, w2) \<Rightarrow> (Inl e, w2)
           | (Inr u, w2) \<Rightarrow>
               (case delete_loop d (rev name) w2 of
                  (Inl e, w3) \<Rightarrow> (Inl e, w3)
                | (Inr u, w3) \<Rightarrow> stabilize d (RESERVED_SIZE d) w3)))"

subsection \<open>Construction and sequences of calls\<close>

text \<open>
  \<open>new DiskIO(path, size)\<close> followed by \<open>await diskio.ready\<close>: the instance is ready.
\<close>

definition new_DiskIO :: "world \<Rightarrow> string \<Rightarrow> int \<Rightarrow> (error + diskio) \<times> world" where
  "new_DiskIO w path sz =
     (case constructor w path sz of
        Inl e \<Rightarrow> (Inl e, w)
      | Inr d \<Rightarrow> ready d sz w)"

text \<open>
  A caller's sequence of \<open>create\<close> and \<open>delete\<close> calls, each awaited before the next; the
  result is \<open>None\<close> when a call throws or does not return.
\<close>

datatype call = Create string "string list" | Delete nat "string list"

fun run_calls :: "ready_promise \<Rightarrow> diskio \<Rightarrow> call list \<Rightarrow> world \<Rightarrow> world option" where
  "run_calls rdy d [] w = Some w"
| "run_calls rdy d (Create name uuids # cs) w =
     (case create rdy d name uuids w of
        Some (Inr f, w1) \<Rightarrow> run_calls rdy d cs w1
      | _ \<Rightarrow> None)"
| "run_calls rdy d (Delete fh name # cs) w =
     (case delete d fh name w of
        (Inr u, w1) \<Rightarrow> run_calls rdy d cs w1
      | _ \<Rightarrow> None)"

text \<open>A path segment with no meaning of its own to \<open>join\<close> or to the kernel.\<close>

definition plain :: "string \<Rightarrow> bool" where
  "plain s = (s \<noteq> [] \<and> s \<noteq> ''.'' \<and> s \<noteq> ''..'' \<and> CHR ''/'' \<notin> set s)"

section \<open>Notions used in the statements\<close>

text \<open>
  What the constructor establishes about the two paths it stores, and where the kernel
  finds the folder and the sentinel.
\<close>

definition constructed :: "diskio \<Rightarrow> bool" where
  "constructed d =
     (path_folder d \<noteq> [] \<and> path_diskio d = path_folder d @ ''/'' @ RESERVED_FILE)"

definition sentinel_path :: "diskio \<Rightarrow> world \<Rightarrow> path" where
  "sentinel_path d w = kresolve w (path_diskio d)"

definition folder_path :: "diskio \<Rightarrow> world \<Rightarrow> path" where
  "folder_path d w = kresolve w (path_folder d)"

text \<open>
  The reservation holds for a capacity: the folder has a name that the shell passes on
  as it is, the sentinel is a file, and the folder's usage is the capacity, or the usage
  of everything but the sentinel where that is more.
\<close>

definition stabilized :: "diskio \<Rightarrow> int \<Rightarrow> world \<Rightarrow> bool" where
  "stabilized d expected w =
     (case lookup w (sentinel_path d w) of
        Some (File c) \<Rightarrow>
          shell_word (path_folder d) \<and>
          lookup w (folder_path d w) \<noteq> None \<and>
          int (usage w (folder_path d w)) =
            max expected (int (usage w (folder_path d w)) - int (length c))
      | _ \<Rightarrow> False)"

text \<open>The state \<open>stabilize\<close> leaves when the sentinel is a file with the bytes \<open>c\<close>.\<close>

definition resized :: "diskio \<Rightarrow> int \<Rightarrow> world \<Rightarrow> byte list \<Rightarrow> world" where
  "resized d expected w c =
     (let k = nat (max 0 (expected - int (usage w (folder_path d w)) + int (length c)))
      in w\<lparr>nodes := AList.update (sentinel_path d w) (File (resize c k)) (nodes w),
           trace := trace w @ [Truncate (sentinel_path d w) k]\<rparr>)"

text \<open>
  The directories above a file, the deepest first, each holding one entry only: the
  deepest holds the file \<open>x\<close>, each other one the directory below it.
\<close>

fun sole_chain :: "world \<Rightarrow> path \<Rightarrow> string list \<Rightarrow> string \<Rightarrow> bool" where
  "sole_chain w fp [] x = True"
| "sole_chain w fp (y # rs) x =
     (lookup w (fp @ rev (y # rs)) = Some Dir \<and> children w (fp @ rev (y # rs)) = [x]
      \<and> sole_chain w fp rs y)"

text \<open>
  The directories above a file, the deepest first: \<open>rs\<close> are their names from the
  deepest up, below the folder \<open>fp\<close>.
\<close>

fun ancestors :: "path \<Rightarrow> string list \<Rightarrow> path list" where
  "ancestors fp [] = []"
| "ancestors fp (y # rs) = (fp @ rev (y # rs)) # ancestors fp rs"

text \<open>
  The directories that are empty once the entry below them is gone: the walk up from
  the directory of a file, where \<open>x\<close> is the entry that has just been removed. A
  directory that holds nothing but \<open>x\<close> is now empty and the walk goes on above it;
  the first directory that holds something else ends the walk.
\<close>

fun emptied :: "world \<Rightarrow> path \<Rightarrow> string list \<Rightarrow> string \<Rightarrow> path list" where
  "emptied w fp [] x = []"
| "emptied w fp (y # rs) x =
     (if list_all (\<lambda>z. z = x) (children w (fp @ rev (y # rs)))
      then (fp @ rev (y # rs)) # emptied w fp rs y
      else [])"

text \<open>The state after the directories of a list are removed, one after the other.\<close>

fun rmdirs :: "path list \<Rightarrow> world \<Rightarrow> world" where
  "rmdirs [] v = v"
| "rmdirs (p # ps) v =
     rmdirs ps (v\<lparr>nodes := AList.delete p (nodes v), trace := trace v @ [Rmdir p]\<rparr>)"

text \<open>The state after a handle is closed and the file \<open>p\<close> is unlinked.\<close>

definition unlinked :: "world \<Rightarrow> nat \<Rightarrow> path \<Rightarrow> world" where
  "unlinked w fh p =
     w\<lparr>nodes := AList.delete p (nodes w), fds := AList.delete fh (fds w),
       trace := trace w @ [Close fh, Unlink p]\<rparr>"

text \<open>
  The number of chunks of \<open>len\<close> bytes in blocks of \<open>b\<close> bytes, and the calls
  \<open>fh.write\<close> and \<open>fh.read\<close> that move chunk \<open>i\<close> of a buffer of \<open>len\<close> bytes to or
  from the same offset of the file.
\<close>

definition chunks :: "nat \<Rightarrow> nat \<Rightarrow> nat" where
  "chunks len b = (len + b - 1) div b"

definition chunk_write :: "nat \<Rightarrow> nat \<Rightarrow> nat \<Rightarrow> nat \<Rightarrow> event" where
  "chunk_write fh len b i =
     FhWrite fh (int (i * b)) (int (min b (len - i * b))) (int (i * b))"

definition chunk_read :: "nat \<Rightarrow> nat \<Rightarrow> nat \<Rightarrow> nat \<Rightarrow> event" where
  "chunk_read fh n b i =
     FhRead fh (int (i * b)) (int (min b (n - i * b))) (int (i * b))"

text \<open>
  \<open>await diskioFile.ready; return diskioFile\<close>: the file object once its promise has
  resolved, the error the promise rejects with, or no return.
\<close>

definition awaited :: "ready_promise \<Rightarrow> diskio_file \<Rightarrow> world \<Rightarrow> (error + diskio_file) option" where
  "awaited rdy f w =
     (case rdy f w of
        None \<Rightarrow> None
      | Some (Inl e) \<Rightarrow> Some (Inl e)
      | Some (Inr u) \<Rightarrow> Some (Inr f))"

section \<open>Example states\<close>

text \<open>
  A folder \<open>/data\<close> with a capacity of 100 bytes on a file system with blocks of 4
  bytes, where a directory takes 2 bytes: the sentinel, and one managed file \<open>a/f\<close> of 6
  bytes, open as handle 3.
\<close>

definition ex_disk :: diskio where
  "ex_disk = \<lparr>RESERVED_SIZE = 100, path_folder = ''/data'',
               path_diskio = ''/data/diskio.dat'', optimal = 4\<rparr>"

definition ex_world :: world where
  "ex_world =
     \<lparr>nodes = [([''data''], Dir),
               ([''data'', ''diskio.dat''], File (replicate 90 0)),
               ([''data'', ''a''], Dir),
               ([''data'', ''a'', ''f''], File [1, 2, 3, 4, 5, 6])],
      cwd = [], fds = [(3, [''data'', ''a'', ''f''])], dir_size = 2, block_size = 4,
      trace = []\<rparr>"

text \<open>The instance of the specification's example: 1,048,576 bytes, blocks of 4096.\<close>

definition big_disk :: diskio where
  "big_disk = \<lparr>RESERVED_SIZE = 1048576, path_folder = ''/data'',
                path_diskio = ''/data/diskio.dat'', optimal = 4096\<rparr>"

text \<open>
  The folder before an instance is made for it, when the instance is ready, and after
  one \<open>create\<close> whose generated identifier is \<open>u1-u2\<close>.
\<close>

definition ex_root :: world where
  "ex_root = \<lparr>nodes = [([''data''], Dir)], cwd = [], fds = [], dir_size = 2, block_size = 4,
               trace = []\<rparr>"

definition ex_ready :: world where
  "ex_ready =
     \<lparr>nodes = [([''data''], Dir), ([''data'', ''diskio.dat''], File (replicate 98 0))],
      cwd = [], fds = [], dir_size = 2, block_size = 4,
      trace = [WriteFile [''data'', ''diskio.dat''], Truncate [''data'', ''diskio.dat''] 98]\<rparr>"

definition ex_created :: world where
  "ex_created =
     \<lparr>nodes = [([''data''], Dir), ([''data'', ''diskio.dat''], File (replicate 94 0)),
               ([''data'', ''u1''], Dir), ([''data'', ''u1'', ''u2''], Dir),
               ([''data'', ''u1'', ''u2'', ''f''], File [])],
      cwd = [], fds = [], dir_size = 2, block_size = 4,
      trace = [WriteFile [''data'', ''diskio.dat''], Truncate [''data'', ''diskio.dat''] 98,
               Mkdir [''data'', ''u1''], Mkdir [''data'', ''u1'', ''u2''],
               WriteFile [''data'', ''u1'', ''u2'', ''f''],
               Truncate [''data'', ''diskio.dat''] 94]\<rparr>"

text \<open>The example folder with a second file beside \<open>a/f\<close>.\<close>

definition ex_siblings :: world where
  "ex_siblings =
     \<lparr>nodes = [([''data''], Dir),
               ([''data'', ''diskio.dat''], File (replicate 88 0)),
               ([''data'', ''a''], Dir),
               ([''data'', ''a'', ''f''], File [1, 2, 3, 4, 5, 6]),
               ([''data'', ''a'', ''g''], File [7, 8])],
      cwd = [], fds = [(3, [''data'', ''a'', ''f''])], dir_size = 2, block_size = 4,
      trace = []\<rparr>"

text \<open>
  The example folder with the managed file \<open>a/b/c/f\<close>, open as handle 3, and a file
  \<open>a/x\<close> beside the directory \<open>a/b\<close>.
\<close>

definition ex_partial :: world where
  "ex_partial =
     \<lparr>nodes = [([''data''], Dir),
               ([''data'', ''diskio.dat''], File (replicate 82 0)),
               ([''data'', ''a''], Dir),
               ([''data'', ''a'', ''x''], File [7, 8]),
               ([''data'', ''a'', ''b''], Dir),
               ([''data'', ''a'', ''b'', ''c''], Dir),
               ([''data'', ''a'', ''b'', ''c'', ''f''], File [1, 2, 3, 4, 5, 6])],
      cwd = [], fds = [(3, [''data'', ''a'', ''b'', ''c'', ''f''])], dir_size = 2,
      block_size = 4, trace = []\<rparr>"

text \<open>
  Ten bytes to write, and the instance that \<open>new DiskIO('/data/', 100)\<close> makes: the
  folder is given with a slash at its end.
\<close>

definition ex_data :: "byte list" where
  "ex_data = [11, 12, 13, 14, 15, 16, 17, 18, 19, 20]"

definition slash_disk :: diskio where
  "slash_disk = \<lparr>RESERVED_SIZE = 100, path_folder = ''/data/'',
                  path_diskio = ''/data//diskio.dat'', optimal = 4\<rparr>"

text \<open>
  A folder that holds a file of 107 bytes, before an instance with a capacity of 204
  bytes is made for it and when the instance is ready.
\<close>

definition ex_tie_root :: world where
  "ex_tie_root =
     \<lparr>nodes = [([''data''], Dir), ([''data'', ''g''], File (replicate 107 7))],
      cwd = [], fds = [], dir_size = 2, block_size = 4, trace = []\<rparr>"

definition tie_disk :: diskio where
  "tie_disk = \<lparr>RESERVED_SIZE = 204, path_folder = ''/data'',
                path_diskio = ''/data/diskio.dat'', optimal = 4\<rparr>"

definition ex_tie :: world where
  "ex_tie =
     \<lparr>nodes = [([''data''], Dir),
               ([''data'', ''g''], File (replicate 107 7)),
               ([''data'', ''diskio.dat''], File (replicate 95 0))],
      cwd = [], fds = [], dir_size = 2, block_size = 4,
      trace = [WriteFile [''data'', ''diskio.dat''], Truncate [''data'', ''diskio.dat''] 95]\<rparr>"

text \<open>A promise \<open>ready\<close> that resolves for every file object.\<close>

definition resolved :: ready_promise where
  "resolved f w = Some (Inr ())"

text \<open>
  Modelled from the spec: the promise \<open>ready\<close> of the class \<open>DiskIOFile\<close>, which is
  not part of the sources. The specification asks of a file object that it exposes an
  open file handle and a signal that its initialization is complete: the promise
  settles as opening the file at the path of the object does, resolved when a file is
  there, rejected with \<open>ENOENT\<close> when nothing is and with \<open>EISDIR\<close> for a directory.
\<close>

definition opened :: ready_promise where
  "opened f w =
     (case f of DiskIOFile d name \<Rightarrow>
        (case lookup w (kresolve w (join (path_folder d # name))) of
           Some (File bs) \<Rightarrow> Some (Inr ())
         | Some Dir \<Rightarrow> Some (Inl EISDIR)
         | None \<Rightarrow> Some (Inl ENOENT)))"

section \<open>Facts about doubles\<close>

text \<open>
  The exponent is the one of the binade of \<open>x\<close>, and \<open>to_double x\<close> is within half a
  unit in the last of the 53 binary digits of \<open>x\<close>.
\<close>

lemma bit_length_pos: "0 < k \<Longrightarrow> bit_length k = 1 + bit_length (k div 2)"
  by (subst bit_length.simps) simp

lemma bit_length_nonpos: "k \<le> 0 \<Longrightarrow> bit_length k = 0"
  by (subst bit_length.simps) simp

lemma bit_length_ge_0: "0 \<le> bit_length k"
proof (induction k rule: bit_length.induct)
  case (1 k)
  show ?case
  proof (cases "k \<le> 0")
    case True
    then show ?thesis by (simp add: bit_length_nonpos)
  next
    case False
    with 1 have "0 \<le> bit_length (k div 2)" by simp
    with False show ?thesis by (simp add: bit_length_pos)
  qed
qed

lemma bit_length_bounds:
  "0 < k \<Longrightarrow> 2 ^ nat (bit_length k - 1) \<le> k \<and> k < 2 ^ nat (bit_length k)"
proof (induction k rule: bit_length.induct)
  case (1 k)
  show ?case
  proof (cases "k = 1")
    case True
    then show ?thesis by (simp add: bit_length_pos bit_length_nonpos)
  next
    case False
    with "1.prems" have p: "0 < k div 2" by simp
    have nk: "\<not> k \<le> 0" using "1.prems" by simp
    from "1.IH" [OF nk p]
    have ih: "2 ^ nat (bit_length (k div 2) - 1) \<le> k div 2"
      "k div 2 < 2 ^ nat (bit_length (k div 2))"
      by simp_all
    define b where "b = bit_length (k div 2)"
    have bl: "bit_length k = 1 + b" using "1.prems" by (simp add: bit_length_pos b_def)
    have pos: "0 < b" using p bit_length_ge_0 [of "k div 2 div 2"]
      by (simp add: b_def bit_length_pos)
    have e1: "nat (1 + b - 1) = Suc (nat (b - 1))" using pos by simp
    have e2: "nat (1 + b) = Suc (nat b)" using pos by simp
    have lo: "2 * 2 ^ nat (b - 1) \<le> k"
    proof -
      have "2 * (2::int) ^ nat (b - 1) \<le> 2 * (k div 2)" using ih(1) by (simp add: b_def)
      also have "\<dots> \<le> k" by simp
      finally show ?thesis .
    qed
    have hi: "k < 2 * 2 ^ nat b"
    proof -
      have "k div 2 + 1 \<le> 2 ^ nat b" using ih(2) by (simp add: b_def)
      then have "2 * (k div 2) + 2 \<le> 2 * 2 ^ nat b" by simp
      moreover have "k < 2 * (k div 2) + 2" by presburger
      ultimately show ?thesis by linarith
    qed
    show ?thesis unfolding bl e1 e2 using lo hi by simp
  qed
qed


lemma pow2_pos: "0 < pow2 e"
  by (simp add: pow2_def)

lemma binade_bounds:
  assumes "x \<noteq> 0"
  shows "pow2 (binade x) \<le> \<bar>x\<bar> \<and> \<bar>x\<bar> < pow2 (binade x + 1)"
proof (cases "1 \<le> \<bar>x\<bar>")
  case True
  define k where "k = \<lfloor>\<bar>x\<bar>\<rfloor>"
  define b where "b = bit_length k"
  have k: "0 < k" using True by (simp add: k_def)
  from bit_length_bounds [OF k]
  have bb: "2 ^ nat (b - 1) \<le> k" "k < 2 ^ nat b" by (simp_all add: b_def)
  have bp: "0 < b" using k bit_length_ge_0 [of "k div 2"] by (simp add: b_def bit_length_pos)
  have bi: "binade x = b - 1" using True by (simp add: binade_def b_def k_def)
  have lo: "(2::rat) ^ nat (b - 1) \<le> \<bar>x\<bar>"
  proof -
    have "(of_int (2 ^ nat (b - 1)) :: rat) \<le> of_int k" using bb(1) by (simp only: of_int_le_iff)
    also have "\<dots> \<le> \<bar>x\<bar>" unfolding k_def by linarith
    finally show ?thesis by simp
  qed
  have hi: "\<bar>x\<bar> < (2::rat) ^ nat b"
  proof -
    have "\<bar>x\<bar> < of_int k + 1" unfolding k_def by linarith
    also have "\<dots> = of_int (k + 1)" by simp
    also have "\<dots> \<le> of_int (2 ^ nat b)"
    proof -
      have "k + 1 \<le> 2 ^ nat b" using bb(2) by simp
      then show ?thesis by (simp only: of_int_le_iff)
    qed
    finally show ?thesis by simp
  qed
  show ?thesis using lo hi bp by (simp add: bi pow2_def)
next
  case False
  define y where "y = 1 / \<bar>x\<bar>"
  define m where "m = \<lceil>y\<rceil> - 1"
  define b where "b = bit_length m"
  have xp: "0 < \<bar>x\<bar>" using assms by simp
  have y1: "1 < y" using False xp by (simp add: y_def)
  have "1 < \<lceil>y\<rceil>" using y1 by (simp add: less_ceiling_iff)
  then have m: "0 < m" by (simp add: m_def)
  from bit_length_bounds [OF m]
  have bb: "2 ^ nat (b - 1) \<le> m" "m < 2 ^ nat b" by (simp_all add: b_def)
  have bp: "0 < b" using m bit_length_ge_0 [of "m div 2"] by (simp add: b_def bit_length_pos)
  have bi: "binade x = - b" using False by (simp add: binade_def b_def m_def y_def)
  have yx: "\<bar>x\<bar> = 1 / y" using xp by (simp add: y_def)
  have yp: "0 < y" using y1 by simp
  have hi: "y \<le> (2::rat) ^ nat b"
  proof -
    have "\<lceil>y\<rceil> \<le> 2 ^ nat b" using bb(2) by (simp add: m_def)
    then have "y \<le> of_int (2 ^ nat b)" by (simp only: ceiling_le_iff)
    then show ?thesis by simp
  qed
  have lo: "(2::rat) ^ nat (b - 1) < y"
  proof -
    have "(of_int (2 ^ nat (b - 1)) :: rat) \<le> of_int m" using bb(1) by (simp only: of_int_le_iff)
    also have "\<dots> = of_int \<lceil>y\<rceil> - 1" by (simp add: m_def)
    also have "\<dots> < y" by linarith
    finally show ?thesis by simp
  qed
  have a: "pow2 (- b) \<le> \<bar>x\<bar>"
  proof -
    have "1 / (2::rat) ^ nat b \<le> 1 / y" using hi yp by (simp add: frac_le)
    then show ?thesis using bp by (simp add: pow2_def yx)
  qed
  have c: "\<bar>x\<bar> < pow2 (- b + 1)"
  proof (cases "b = 1")
    case True
    then show ?thesis using False by (simp add: pow2_def)
  next
    case False
    then have b2: "1 < b" using bp by simp
    have "1 / y < 1 / (2::rat) ^ nat (b - 1)" using lo by (simp add: frac_less2)
    moreover have "nat (- (- b + 1)) = nat (b - 1)" by simp
    ultimately show ?thesis using b2 by (simp add: pow2_def yx)
  qed
  show ?thesis using a c by (simp add: bi)
qed

lemma round_even_near: "\<bar>of_int (round_even z) - z\<bar> \<le> 1 / 2"
proof -
  have "of_int \<lfloor>z\<rfloor> \<le> z" "z < of_int \<lfloor>z\<rfloor> + 1" by linarith+
  then show ?thesis by (auto simp: round_even_def Let_def)
qed

lemma to_double_near:
  "\<bar>to_double x - x\<bar> \<le> pow2 (binade x - 52) / 2"
proof (cases "x = 0")
  case True
  then show ?thesis using pow2_pos [of "binade x - 52"] by (simp add: to_double_def)
next
  case False
  define q where "q = pow2 (binade x - 52)"
  have qp: "0 < q" by (simp add: q_def pow2_pos)
  have "\<bar>of_int (round_even (x / q)) - x / q\<bar> \<le> 1 / 2" by (rule round_even_near)
  then have "\<bar>of_int (round_even (x / q)) - x / q\<bar> * q \<le> 1 / 2 * q"
    using qp by (simp only: mult_le_cancel_right_pos)
  moreover have "\<bar>of_int (round_even (x / q)) - x / q\<bar> * q
                  = \<bar>of_int (round_even (x / q)) * q - x\<bar>"
  proof -
    have "\<bar>of_int (round_even (x / q)) - x / q\<bar> * q
          = \<bar>(of_int (round_even (x / q)) - x / q) * q\<bar>"
      using qp by (simp add: abs_mult)
    also have "(of_int (round_even (x / q)) - x / q) * q = of_int (round_even (x / q)) * q - x"
      using qp by (simp add: left_diff_distrib)
    finally show ?thesis .
  qed
  ultimately show ?thesis using False by (simp add: to_double_def q_def)
qed

section \<open>Facts about the file system\<close>

lemma kresolve_nodes [simp]: "kresolve (w\<lparr>nodes := ns\<rparr>) s = kresolve w s"
  by (simp add: kresolve_def)

lemma kresolve_trace [simp]: "kresolve (w\<lparr>trace := t\<rparr>) s = kresolve w s"
  by (simp add: kresolve_def)

lemma kresolve_fds [simp]: "kresolve (w\<lparr>fds := t\<rparr>) s = kresolve w s"
  by (simp add: kresolve_def)

lemma lookup_trace [simp]: "lookup (w\<lparr>trace := t\<rparr>) p = lookup w p"
  by (simp add: lookup_def)

lemma lookup_fds [simp]: "lookup (w\<lparr>fds := t\<rparr>) p = lookup w p"
  by (simp add: lookup_def)

lemma lookup_update:
  "lookup (w\<lparr>nodes := AList.update p v (nodes w)\<rparr>) q =
     (if q = [] then Some Dir else if q = p then Some v else lookup w q)"
  by (simp add: lookup_def update_conv')

lemma lookup_delete:
  "lookup (w\<lparr>nodes := AList.delete p (nodes w)\<rparr>) q =
     (if q = [] then Some Dir else if q = p then None else lookup w q)"
  by (simp add: lookup_def delete_conv')

lemma lookup_File_nonroot: "lookup w p = Some (File c) \<Longrightarrow> p \<noteq> []"
  by (auto simp: lookup_def)

lemma resize_same [simp]: "resize c (length c) = c"
  by (simp add: resize_def)

lemma length_resize [simp]: "length (resize c n) = n"
  by (simp add: resize_def)

lemma sentinel_path_upd [simp]:
  "sentinel_path d (w\<lparr>nodes := ns\<rparr>) = sentinel_path d w"
  "sentinel_path d (w\<lparr>trace := t\<rparr>) = sentinel_path d w"
  "sentinel_path d (w\<lparr>fds := fs\<rparr>) = sentinel_path d w"
  "sentinel_path (d\<lparr>optimal := b\<rparr>) w = sentinel_path d w"
  by (simp_all add: sentinel_path_def)

lemma folder_path_upd [simp]:
  "folder_path d (w\<lparr>nodes := ns\<rparr>) = folder_path d w"
  "folder_path d (w\<lparr>trace := t\<rparr>) = folder_path d w"
  "folder_path d (w\<lparr>fds := fs\<rparr>) = folder_path d w"
  "folder_path (d\<lparr>optimal := b\<rparr>) w = folder_path d w"
  by (simp_all add: folder_path_def)

lemma split_on_nonempty [simp]: "split_on c s \<noteq> []"
  by (induction s) (auto split: list.splits)

lemma split_on_append: "split_on c (a @ c # b) = split_on c a @ split_on c b"
  by (induction a) (auto split: list.splits)

lemma walk_append: "walk p (xs @ ys) = walk (walk p xs) ys"
  by (induction xs arbitrary: p) auto

lemma kresolve_slash:
  "f \<noteq> [] \<Longrightarrow> kresolve w (f @ CHR ''/'' # t) = walk (kresolve w f) (split_on CHR ''/'' t)"
  by (simp add: kresolve_def split_on_append walk_append)

lemma sentinel_in_folder:
  "constructed d \<Longrightarrow> sentinel_path d w = folder_path d w @ [''diskio.dat'']"
  by (simp add: constructed_def sentinel_path_def folder_path_def RESERVED_FILE_def kresolve_slash)

lemma normalize_path_nonempty: "normalize_path s \<noteq> []"
  by (simp add: normalize_path_def Let_def)

lemma join_nonempty: "join args \<noteq> []"
  by (simp add: join_def Let_def normalize_path_nonempty)

lemma constructor_constructed:
  "constructor w path sz = Inr d \<Longrightarrow> constructed d \<and> RESERVED_SIZE d = sz"
  by (auto simp: constructor_def constructed_def join_nonempty split: if_splits sum.splits)

lemma node_size_nodes [simp]: "node_size (w\<lparr>nodes := ns\<rparr>) n = node_size w n"
  by (simp add: node_size_def split: node.splits)

lemma node_size_trace [simp]: "node_size (w\<lparr>trace := t\<rparr>) n = node_size w n"
  by (simp add: node_size_def split: node.splits)

lemma sum_update_file:
  "map_of ns p = Some (File c) \<Longrightarrow>
   sum_list (map (\<lambda>(q, n). node_size w n) (filter (\<lambda>(q, n). is_under d q) (AList.update p (File c') ns)))
     + (if is_under d p then length c else 0)
   = sum_list (map (\<lambda>(q, n). node_size w n) (filter (\<lambda>(q, n). is_under d q) ns))
     + (if is_under d p then length c' else 0)"
  by (induction ns) (auto simp: node_size_def)

lemma sum_update_new:
  "map_of ns p = None \<Longrightarrow>
   sum_list (map (\<lambda>(q, n). node_size w n) (filter (\<lambda>(q, n). is_under d q) (AList.update p (File []) ns)))
   = sum_list (map (\<lambda>(q, n). node_size w n) (filter (\<lambda>(q, n). is_under d q) ns))"
  by (induction ns) (auto simp: node_size_def)

lemma usage_update_file:
  assumes "lookup w p = Some (File c)" and "is_under d p"
  shows "usage (w\<lparr>nodes := AList.update p (File c') (nodes w)\<rparr>) d + length c
           = usage w d + length c'"
proof -
  have "p \<noteq> []" using assms(1) by (rule lookup_File_nonroot)
  then have "map_of (nodes w) p = Some (File c)" using assms(1) by (simp add: lookup_def)
  from sum_update_file [OF this, of w d c'] assms(2) show ?thesis
    by (auto simp: usage_def)
qed

lemma usage_trace [simp]: "usage (w\<lparr>trace := t\<rparr>) d = usage w d"
  by (simp add: usage_def)

lemma usage_update_new:
  assumes "lookup w p = None"
  shows "usage (w\<lparr>nodes := AList.update p (File []) (nodes w)\<rparr>) d = usage w d"
proof -
  have "map_of (nodes w) p = None" using assms by (simp add: lookup_def split: if_splits)
  from sum_update_new [OF this, of w d] show ?thesis by (simp add: usage_def)
qed

lemma stabilize_existing:
  assumes "lookup w (sentinel_path d w) = Some (File c)"
    and "lookup w (folder_path d w) = Some n"
    and "shell_word (path_folder d)"
  shows "stabilize d expected w = (Inr (), resized d expected w c)"
  using assms
  by (simp add: stabilize_def exists_path_def fs_access_def size_diskio_def stat_size_def
      size_folder_def du_sb_def fs_truncate_def set_length_def node_size_def Let_def
      resized_def sentinel_path_def folder_path_def)

lemma sentinel_path_resized [simp]: "sentinel_path d (resized d e w c) = sentinel_path d w"
  by (simp add: sentinel_path_def resized_def Let_def)

lemma folder_path_resized [simp]: "folder_path d (resized d e w c) = folder_path d w"
  by (simp add: folder_path_def resized_def Let_def)

lemma resized_stabilized:
  assumes c: "constructed d"
    and s: "lookup w (sentinel_path d w) = Some (File c)"
    and f: "lookup w (folder_path d w) = Some n"
    and sw: "shell_word (path_folder d)"
  shows "stabilized d expected (resized d expected w c)"
proof -
  let ?sp = "sentinel_path d w" and ?fp = "folder_path d w"
  let ?k = "nat (max 0 (expected - int (usage w ?fp) + int (length c)))"
  have sp: "?sp = ?fp @ [''diskio.dat'']" using c by (rule sentinel_in_folder)
  then have un: "is_under ?fp ?sp" by (simp add: is_under_def)
  have ne: "?sp \<noteq> []" "?sp \<noteq> ?fp" using sp by auto
  have u0: "usage (w\<lparr>nodes := AList.update ?sp (File []) (nodes w)\<rparr>) ?fp + length c = usage w ?fp"
    using usage_update_file [OF s un, of "[]"] by simp
  have u1: "usage (resized d expected w c) ?fp + length c = usage w ?fp + ?k"
    using usage_update_file [OF s un, of "resize c ?k"] by (simp add: resized_def Let_def)
  have l1: "lookup (resized d expected w c) ?sp = Some (File (resize c ?k))"
    using ne by (simp add: resized_def Let_def lookup_update)
  have l2: "lookup (resized d expected w c) ?fp = Some n"
    using ne f by (simp add: resized_def Let_def lookup_update) (auto simp: lookup_def)
  have "int (usage (resized d expected w c) ?fp)
          = max expected (int (usage (resized d expected w c) ?fp) - int ?k)"
    using u0 u1 by linarith
  then show ?thesis using l1 l2 sw by (simp add: stabilized_def)
qed

lemma stabilize_absent:
  assumes "lookup w (sentinel_path d w) = None"
  shows "stabilize d expected w =
           (case create_empty w (path_diskio d) of
              (Inl e, w1) \<Rightarrow> (Inl e, w1)
            | (Inr u, w1) \<Rightarrow> stabilize d expected w1)"
proof (cases "lookup w (butlast (sentinel_path d w))")
  case None
  then show ?thesis using assms
    by (simp add: stabilize_def exists_path_def fs_access_def writeFile_def create_empty_def
        sentinel_path_def Let_def)
next
  case (Some n)
  show ?thesis
  proof (cases n)
    case (File c)
    then show ?thesis using assms Some
      by (simp add: stabilize_def exists_path_def fs_access_def writeFile_def create_empty_def
          sentinel_path_def Let_def)
  next
    case Dir
    have ne: "sentinel_path d w \<noteq> []" using assms by (auto simp: lookup_def)
    show ?thesis using assms Some Dir ne
      by (simp add: stabilize_def exists_path_def fs_access_def writeFile_def create_empty_def
          sentinel_path_def Let_def lookup_update)
  qed
qed

lemma stabilize_success:
  assumes ok: "stabilize d expected w = (Inr u, w')" and c: "constructed d"
  shows "stabilized d expected w' \<and> cwd w' = cwd w"
proof -
  have ex: "\<And>v cc. lookup v (sentinel_path d v) = Some (File cc) \<Longrightarrow>
              stabilize d expected v = (Inr u, w') \<Longrightarrow> stabilized d expected w' \<and> cwd w' = cwd v"
  proof -
    fix v cc
    assume s: "lookup v (sentinel_path d v) = Some (File cc)"
      and r: "stabilize d expected v = (Inr u, w')"
    show "stabilized d expected w' \<and> cwd w' = cwd v"
    proof (cases "lookup v (folder_path d v)")
      case None
      then show ?thesis using s r
        by (simp add: stabilize_def exists_path_def fs_access_def size_diskio_def stat_size_def
            size_folder_def du_sb_def sentinel_path_def folder_path_def Let_def
            split: if_splits)
    next
      case (Some n)
      have sw: "shell_word (path_folder d)"
      proof (rule ccontr)
        assume "\<not> shell_word (path_folder d)"
        then show False using s r
          by (simp add: stabilize_def exists_path_def fs_access_def size_diskio_def
              stat_size_def size_folder_def du_sb_def sentinel_path_def Let_def)
      qed
      from stabilize_existing [OF s Some sw, of expected] r
      have "w' = resized d expected v cc" by simp
      then show ?thesis using resized_stabilized [OF c s Some sw, of expected]
        by (simp add: resized_def Let_def)
    qed
  qed
  show ?thesis
  proof (cases "lookup w (sentinel_path d w)")
    case None
    from ok stabilize_absent [OF None, of expected]
    obtain w1 where w1: "create_empty w (path_diskio d) = (Inr (), w1)"
      and r: "stabilize d expected w1 = (Inr u, w')"
      by (auto split: prod.splits sum.splits)
    have ne: "sentinel_path d w \<noteq> []" using None by (auto simp: lookup_def)
    from w1 have w1_def: "w1 = w\<lparr>nodes := AList.update (sentinel_path d w) (File []) (nodes w),
                              trace := trace w @ [WriteFile (sentinel_path d w)]\<rparr>"
      by (auto simp: create_empty_def sentinel_path_def Let_def split: option.splits node.splits)
    have sp1: "sentinel_path d w1 = sentinel_path d w" by (simp add: w1_def sentinel_path_def)
    have "lookup w1 (sentinel_path d w1) = Some (File [])"
      using ne by (simp add: sp1) (simp add: w1_def lookup_update)
    from ex [OF this r] show ?thesis by (simp add: w1_def)
  next
    case (Some n)
    show ?thesis
    proof (cases n)
      case (File cc)
      with Some ex [of w cc] ok show ?thesis by simp
    next
      case Dir
      with Some ok show ?thesis
        by (auto simp: stabilize_def exists_path_def fs_access_def size_diskio_def stat_size_def
            size_folder_def du_sb_def fs_truncate_def set_length_def sentinel_path_def Let_def
            split: sum.splits option.splits)
    qed
  qed
qed


lemma ex_sentinel_path: "kresolve ex_world ''/data/diskio.dat'' = [''data'', ''diskio.dat'']"
  by (simp add: kresolve_def ex_world_def)

lemma ex_folder_path: "kresolve ex_world ''/data'' = [''data'']"
  by (simp add: kresolve_def ex_world_def)

lemma ex_usage: "usage ex_world [''data''] = 100"
  by (simp add: usage_def ex_world_def is_under_def node_size_def)


section \<open>stabilize\<close>

text \<open>
  C3, as amended. On a constructed instance whose folder is a directory with a name
  that the shell passes on to \<open>du\<close> as it is, and whose sentinel is a file with bytes
  \<open>c\<close> (or is absent: then it is created empty first and \<open>c\<close> is empty),
  \<open>stabilize expected\<close> returns without an error, leaves the sentinel
  with \<open>max 0 difference\<close> bytes, where
  \<open>difference = expected - folder usage + sentinel size\<close>, and changes no other file.
  It has no check for a negative \<open>difference\<close>: the number goes to \<open>truncate\<close>, which
  uses 0 for it.
\<close>

theorem stabilize_resizes:
  assumes c: "constructed d"
    and sw: "shell_word (path_folder d)"
    and f: "lookup w (folder_path d w) = Some Dir"
    and s: "lookup w (sentinel_path d w) = Some (File c)
            \<or> (lookup w (sentinel_path d w) = None \<and> c = [])"
  shows "\<exists>w'. stabilize d expected w = (Inr (), w')
           \<and> lookup w' (sentinel_path d w) =
               Some (File (resize c (nat (max 0
                 (expected - int (usage w (folder_path d w)) + int (length c))))))
           \<and> (\<forall>q. q \<noteq> sentinel_path d w \<longrightarrow> lookup w' q = lookup w q)"
proof -
  let ?sp = "sentinel_path d w" and ?fp = "folder_path d w"
  have sp: "?sp = ?fp @ [''diskio.dat'']" using c by (rule sentinel_in_folder)
  then have ne: "?sp \<noteq> []" by simp
  have bl: "butlast ?sp = ?fp" using sp by simp
  have ex: "\<And>v. lookup v (sentinel_path d v) = Some (File c) \<Longrightarrow>
              lookup v (folder_path d v) = Some Dir \<Longrightarrow> cwd v = cwd w \<Longrightarrow>
              usage v ?fp = usage w ?fp \<Longrightarrow>
              (\<forall>q. q \<noteq> ?sp \<longrightarrow> lookup v q = lookup w q) \<Longrightarrow>
              stabilize d expected v = (Inr (), resized d expected v c)
              \<and> lookup (resized d expected v c) ?sp =
                  Some (File (resize c (nat (max 0
                    (expected - int (usage w ?fp) + int (length c))))))
              \<and> (\<forall>q. q \<noteq> ?sp \<longrightarrow> lookup (resized d expected v c) q = lookup w q)"
  proof -
    fix v
    assume a: "lookup v (sentinel_path d v) = Some (File c)"
      "lookup v (folder_path d v) = Some Dir" "cwd v = cwd w"
      "usage v ?fp = usage w ?fp" "\<forall>q. q \<noteq> ?sp \<longrightarrow> lookup v q = lookup w q"
    have p: "sentinel_path d v = ?sp" "folder_path d v = ?fp"
      using a(3) by (simp_all add: sentinel_path_def folder_path_def kresolve_def)
    show "stabilize d expected v = (Inr (), resized d expected v c)
              \<and> lookup (resized d expected v c) ?sp =
                  Some (File (resize c (nat (max 0
                    (expected - int (usage w ?fp) + int (length c))))))
              \<and> (\<forall>q. q \<noteq> ?sp \<longrightarrow> lookup (resized d expected v c) q = lookup w q)"
      using stabilize_existing [OF a(1) a(2) sw, of expected] ne a(4) a(5)
      by (simp add: resized_def Let_def p lookup_update) (simp add: lookup_def)
  qed
  from s show ?thesis
  proof
    assume "lookup w ?sp = Some (File c)"
    from ex [OF this f] show ?thesis by blast
  next
    assume a: "lookup w ?sp = None \<and> c = []"
    let ?w1 = "w\<lparr>nodes := AList.update ?sp (File []) (nodes w), trace := trace w @ [WriteFile ?sp]\<rparr>"
    have ce: "create_empty w (path_diskio d) = (Inr (), ?w1)"
      using a f bl by (simp add: create_empty_def Let_def sentinel_path_def)
    have st: "stabilize d expected w = stabilize d expected ?w1"
      using stabilize_absent [of w d expected] a ce by simp
    have l1: "lookup ?w1 (sentinel_path d ?w1) = Some (File c)"
      using a ne by (simp add: lookup_update)
    have fs: "?fp \<noteq> ?sp" using sp by simp
    have l2: "lookup ?w1 (folder_path d ?w1) = Some Dir"
      using f fs by (auto simp: lookup_update)
    have us: "usage ?w1 ?fp = usage w ?fp"
      using a usage_update_new [of w ?sp ?fp] by simp
    have lk: "\<forall>q. q \<noteq> ?sp \<longrightarrow> lookup ?w1 q = lookup w q"
      by (simp add: lookup_update) (simp add: lookup_def)
    from ex [OF l1 l2 _ us lk] st show ?thesis by auto
  qed
qed


theorem stabilize_resizes_witness:
  "constructed ex_disk
   \<and> shell_word (path_folder ex_disk)
   \<and> lookup ex_world (folder_path ex_disk ex_world) = Some Dir
   \<and> lookup ex_world (sentinel_path ex_disk ex_world) = Some (File (replicate 90 0))
   \<and> usage ex_world (folder_path ex_disk ex_world) = 100
   \<and> (\<exists>w'. stabilize ex_disk 5 ex_world = (Inr (), w')
          \<and> lookup w' (sentinel_path ex_disk ex_world) = Some (File [])
          \<and> lookup w' [''data'', ''a'', ''f''] = lookup ex_world [''data'', ''a'', ''f''])"
proof -
  have h1: "constructed ex_disk" by code_simp
  have h0: "shell_word (path_folder ex_disk)" by code_simp
  have h2: "lookup ex_world (folder_path ex_disk ex_world) = Some Dir" by code_simp
  have h3: "lookup ex_world (sentinel_path ex_disk ex_world) = Some (File (replicate 90 0))"
    by code_simp
  have h4: "usage ex_world (folder_path ex_disk ex_world) = 100" by code_simp
  have h5: "sentinel_path ex_disk ex_world = [''data'', ''diskio.dat'']" by code_simp
  from stabilize_resizes [OF h1 h0 h2 disjI1 [OF h3], of 5] obtain w' where
    w: "stabilize ex_disk 5 ex_world = (Inr (), w')"
       "lookup w' (sentinel_path ex_disk ex_world) =
          Some (File (resize (replicate 90 0) (nat (max 0
            (5 - int (usage ex_world (folder_path ex_disk ex_world))
               + int (length (replicate 90 (0::byte))))))))"
       "\<forall>q. q \<noteq> sentinel_path ex_disk ex_world \<longrightarrow> lookup w' q = lookup ex_world q"
    by blast
  have "lookup w' (sentinel_path ex_disk ex_world) = Some (File [])"
    using w(2) h4 by (simp add: resize_def)
  moreover have "lookup w' [''data'', ''a'', ''f''] = lookup ex_world [''data'', ''a'', ''f'']"
    using w(3) h5 by simp
  ultimately show ?thesis using h1 h0 h2 h3 h4 w(1) by blast
qed

text \<open>
  The claim as stated fails: with a capacity of 5 bytes on the example folder the
  difference is \<open>5 - 100 + 90\<close>, negative, and \<open>stabilize\<close> returns without an error,
  the sentinel emptied.
\<close>

theorem stabilize_negative_counterexample:
  "5 - int (usage ex_world (folder_path ex_disk ex_world)) + 90 < (0::int)
   \<and> size_diskio ex_disk ex_world = Inr 90
   \<and> fst (stabilize ex_disk 5 ex_world) = Inr ()
   \<and> size_diskio ex_disk (snd (stabilize ex_disk 5 ex_world)) = Inr 0"
  by code_simp

section \<open>The report after create and delete\<close>

lemma constructed_optimal [simp]: "constructed (d\<lparr>optimal := b\<rparr>) = constructed d"
  by (simp add: constructed_def)

lemma stabilized_optimal [simp]: "stabilized (d\<lparr>optimal := b\<rparr>) e w = stabilized d e w"
  unfolding stabilized_def sentinel_path_upd folder_path_upd
  by (simp split: option.splits node.splits)

lemma create_stabilized:
  "create rdy d name uuids w = Some (Inr f, w') \<Longrightarrow> constructed d \<Longrightarrow>
   stabilized d (RESERVED_SIZE d) w'"
proof (induction uuids arbitrary: w)
  case Nil
  then show ?case by (simp split: if_splits)
next
  case (Cons u us)
  from Cons.prems(1) show ?case
    by (auto simp: Let_def split: if_splits prod.splits sum.splits option.splits
        dest: stabilize_success [OF _ Cons.prems(2)] Cons.IH [OF _ Cons.prems(2)])
qed

lemma delete_stabilized:
  "delete d fh name w = (Inr u, w') \<Longrightarrow> constructed d \<Longrightarrow> stabilized d (RESERVED_SIZE d) w'"
  by (auto simp: delete_def Let_def split: prod.splits sum.splits dest: stabilize_success)

lemma new_DiskIO_stabilized:
  assumes "new_DiskIO w0 path sz = (Inr d, w)"
  shows "constructed d \<and> stabilized d (RESERVED_SIZE d) w"
proof -
  from assms obtain d0 where d0: "constructor w0 path sz = Inr d0" and r: "ready d0 sz w0 = (Inr d, w)"
    by (auto simp: new_DiskIO_def split: sum.splits)
  from constructor_constructed [OF d0] have c: "constructed d0" and z: "RESERVED_SIZE d0 = sz"
    by simp_all
  from r obtain u b where s: "stabilize d0 sz w0 = (Inr u, w)" and d: "d = d0\<lparr>optimal := b\<rparr>"
    by (auto simp: ready_def split: prod.splits sum.splits)
  from stabilize_success [OF s c] c z d show ?thesis by simp
qed

lemma run_calls_stabilized:
  "run_calls rdy d cs w = Some w' \<Longrightarrow> constructed d \<Longrightarrow> stabilized d (RESERVED_SIZE d) w \<Longrightarrow>
   stabilized d (RESERVED_SIZE d) w'"
proof (induction cs arbitrary: w)
  case Nil
  then show ?case by simp
next
  case (Cons c cs)
  show ?case
  proof (cases c)
    case (Create name uuids)
    with Cons.prems(1) obtain f w1 where
      a: "create rdy d name uuids w = Some (Inr f, w1)" and b: "run_calls rdy d cs w1 = Some w'"
      by (auto split: option.splits prod.splits sum.splits)
    from Cons.IH [OF b Cons.prems(2) create_stabilized [OF a Cons.prems(2)]] show ?thesis .
  next
    case (Delete fh name)
    with Cons.prems(1) obtain u w1 where
      a: "delete d fh name w = (Inr u, w1)" and b: "run_calls rdy d cs w1 = Some w'"
      by (auto split: option.splits prod.splits sum.splits)
    from Cons.IH [OF b Cons.prems(2) delete_stabilized [OF a Cons.prems(2)]] show ?thesis .
  qed
qed

lemma report_stabilized:
  assumes "stabilized d (RESERVED_SIZE d) w"
  shows "\<exists>r. information_diskio d w = Inr r
          \<and> report_size r = RESERVED_SIZE d - optimal d
          \<and> used r + available r = max (RESERVED_SIZE d) (used r)"
  using assms
  by (auto simp: stabilized_def information_diskio_def size_diskio_def stat_size_def
      size_folder_def du_sb_def node_size_def Let_def sentinel_path_def folder_path_def
      split: option.splits node.splits)


text \<open>
  C1, as amended. On an instance that is ready, after any sequence of \<open>create\<close> and
  \<open>delete\<close> calls that return, the report has \<open>size = RESERVED_SIZE - optimal\<close>, and
  \<open>used + available\<close> is the larger of \<open>RESERVED_SIZE\<close> and \<open>used\<close>: it is
  \<open>RESERVED_SIZE\<close>, that is \<open>size + optimal\<close>, whenever what is used fits the capacity.
\<close>

theorem report_after_calls:
  assumes "new_DiskIO w0 path sz = (Inr d, w)" and "run_calls rdy d cs w = Some w'"
  shows "\<exists>r. information_diskio d w' = Inr r
          \<and> report_size r = RESERVED_SIZE d - optimal d
          \<and> used r + available r = max (RESERVED_SIZE d) (used r)
          \<and> (used r \<le> RESERVED_SIZE d \<longrightarrow> used r + available r = report_size r + optimal d)"
proof -
  from new_DiskIO_stabilized [OF assms(1)]
  have "constructed d" "stabilized d (RESERVED_SIZE d) w" by simp_all
  from run_calls_stabilized [OF assms(2) this]
  have "stabilized d (RESERVED_SIZE d) w'" .
  from report_stabilized [OF this] show ?thesis by auto
qed


theorem report_after_calls_witness:
  "new_DiskIO ex_root ''/data'' 100 = (Inr ex_disk, ex_ready)
   \<and> run_calls resolved ex_disk [Create ''f'' [''u1-u2'']] ex_ready = Some ex_created
   \<and> (\<exists>r. information_diskio ex_disk ex_created = Inr r
          \<and> report_size r = 96 \<and> used r + available r = max 100 (used r))"
proof -
  have h1: "new_DiskIO ex_root ''/data'' 100 = (Inr ex_disk, ex_ready)" by code_simp
  have h2: "run_calls resolved ex_disk [Create ''f'' [''u1-u2'']] ex_ready = Some ex_created"
    by code_simp
  have h3: "RESERVED_SIZE ex_disk = 100 \<and> optimal ex_disk = 4" by code_simp
  show ?thesis using h1 h2 h3 report_after_calls [OF h1 h2] by auto
qed

text \<open>
  The claim as stated fails: on the ready instance of the example, after one \<open>create\<close>,
  \<open>used + available\<close> is 100 and \<open>size\<close> is 96.
\<close>

theorem report_sum_counterexample:
  "new_DiskIO ex_root ''/data'' 100 = (Inr ex_disk, ex_ready)
   \<and> run_calls resolved ex_disk [Create ''f'' [''u1-u2'']] ex_ready = Some ex_created
   \<and> information_diskio ex_disk ex_created =
       Inr \<lparr>report_size = 96, used = 6, available = 94, capacity = ''94%''\<rparr>
   \<and> (6::int) + 94 \<noteq> 96"
  by code_simp

section \<open>Paths\<close>

text \<open>
  What the kernel finds at a path that \<open>join\<close> made from the folder and plain
  segments: the folder, then the segments.
\<close>

lemma split_on_no_sep: "x \<in> set (split_on c s) \<Longrightarrow> c \<notin> set x"
  by (induction s arbitrary: x) (auto split: if_splits list.splits)

lemma split_on_single: "c \<notin> set s \<Longrightarrow> split_on c s = [s]"
  by (induction s) auto

lemma split_on_snoc: "split_on c (a @ [c]) = split_on c a @ [[]]"
  using split_on_append [of c a "[]"] by simp

lemma split_on_join_with:
  "xs \<noteq> [] \<Longrightarrow> (\<forall>x \<in> set xs. c \<notin> set x) \<Longrightarrow> split_on c (join_with [c] xs) = xs"
proof (induction "[c]" xs rule: join_with.induct)
  case 1
  then show ?case by simp
next
  case (2 s)
  then show ?case by (simp add: split_on_single)
next
  case (3 s t ss)
  then show ?case using split_on_append [of c s "join_with [c] (t # ss)"]
    by (simp add: split_on_single)
qed

lemma walk_plain: "(\<forall>s \<in> set ss. plain s) \<Longrightarrow> walk p ss = p @ ss"
  by (induction ss arbitrary: p) (auto simp: plain_def)

lemma normalizeString_set:
  "set (normalizeString a ss res) \<subseteq> set ss \<union> set res \<union> {''..''}"
  by (induction a ss res rule: normalizeString.induct) (auto split: list.splits if_splits)

lemma normalizeString_no_empty:
  "[] \<notin> set res \<Longrightarrow> [] \<notin> set (normalizeString a ss res)"
  by (induction a ss res rule: normalizeString.induct) (auto split: list.splits if_splits)

lemma walk_normalizeString:
  "(a \<or> (p = [] \<and> ''..'' \<notin> set res)) \<Longrightarrow> (\<forall>t \<in> set res. t \<noteq> [] \<and> t \<noteq> ''.'') \<Longrightarrow>
   walk p (normalizeString a ss res) = walk (walk p (rev res)) ss"
proof (induction a ss res rule: normalizeString.induct)
  case (1 a res)
  then show ?case by simp
next
  case (2 a s ss res)
  show ?case
  proof (cases "s = [] \<or> s = ''.''")
    case True
    with 2 show ?thesis by auto
  next
    case ne: False
    show ?thesis
    proof (cases "s = ''..''")
      case False
      with ne 2 show ?thesis by (auto simp: walk_append)
    next
      case dd: True
      show ?thesis
      proof (cases res)
        case Nil
        with dd ne 2 show ?thesis by auto
      next
        case (Cons t ts)
        show ?thesis
        proof (cases "t = ''..''")
          case True
          with Cons dd ne 2 show ?thesis by (auto simp: walk_append)
        next
          case False
          with Cons dd ne 2 show ?thesis by (auto simp: walk_append)
        qed
      qed
    qed
  qed
qed

lemma kresolve_wrapped:
  assumes "b \<noteq> []" and "hd b \<noteq> CHR ''/''"
  shows "kresolve w ((if a then ''/'' else []) @ b @ (if t then ''/'' else []))
           = walk (if a then [] else cwd w) (split_on CHR ''/'' b)"
proof -
  have t: "\<And>p. walk p (split_on CHR ''/'' (b @ (if t then ''/'' else [])))
                = walk p (split_on CHR ''/'' b)"
    by (simp add: split_on_snoc walk_append)
  show ?thesis
  proof (cases a)
    case True
    then show ?thesis using t [of "[]"] by (simp add: kresolve_def)
  next
    case False
    then show ?thesis using assms t [of "cwd w"] by (simp add: kresolve_def)
  qed
qed

lemma kresolve_normalize:
  assumes "s \<noteq> []"
  shows "kresolve w (normalize_path s) = kresolve w s"
proof -
  let ?abs = "hd s = CHR ''/''" and ?trail = "last s = CHR ''/''"
  let ?start = "if ?abs then [] else cwd w"
  let ?N = "normalizeString (\<not> ?abs) (split_on CHR ''/'' s) []"
  let ?body = "join_with ''/'' ?N"
  have orig: "kresolve w s = walk ?start ?N"
    using assms walk_normalizeString [of "\<not> ?abs" ?start "[]" "split_on CHR ''/'' s"]
    by (auto simp: kresolve_def)
  have nosl: "\<forall>x \<in> set ?N. CHR ''/'' \<notin> set x"
    using normalizeString_set [of "\<not> ?abs" "split_on CHR ''/'' s" "[]"] split_on_no_sep
    by fastforce
  have noem: "[] \<notin> set ?N" by (rule normalizeString_no_empty) simp
  show ?thesis
  proof (cases "?N = []")
    case True
    then show ?thesis using assms orig
      by (auto simp: normalize_path_def Let_def kresolve_def)
  next
    case False
    then obtain x xs where N: "?N = x # xs" by (cases ?N) auto
    have x: "x \<noteq> []" "CHR ''/'' \<notin> set x" using N noem nosl by auto
    have bne: "?body \<noteq> []" using N x by (cases xs) auto
    have hdb: "hd ?body \<noteq> CHR ''/''" using N x by (cases xs; cases x) auto
    have sp: "split_on CHR ''/'' ?body = ?N"
      using split_on_join_with [of ?N "CHR ''/''"] False nosl by simp
    have np: "normalize_path s =
        (if ?abs then ''/'' else []) @ ?body @ (if ?trail then ''/'' else [])"
      using assms bne by (simp add: normalize_path_def Let_def)
    have "kresolve w (normalize_path s) = walk ?start ?N"
      unfolding np using kresolve_wrapped [OF bne hdb, of w ?abs ?trail] sp by simp
    then show ?thesis using orig by simp
  qed
qed

lemma join_single: "s \<noteq> [] \<Longrightarrow> kresolve w (join [s]) = kresolve w s"
  by (simp add: join_def kresolve_normalize)

lemma kresolve_segments:
  "f \<noteq> [] \<Longrightarrow> (\<forall>s \<in> set ss. plain s) \<Longrightarrow>
   kresolve w (join_with ''/'' (f # ss)) = kresolve w f @ ss"
proof (induction ss arbitrary: f)
  case Nil
  then show ?case by simp
next
  case (Cons x xs)
  have x: "plain x" using Cons.prems(2) by simp
  then have sx: "split_on CHR ''/'' x = [x]" by (simp add: plain_def split_on_single)
  have "join_with ''/'' (f # x # xs) = join_with ''/'' ((f @ ''/'' @ x) # xs)"
    by (cases xs) auto
  moreover have "kresolve w (f @ ''/'' @ x) = kresolve w f @ [x]"
    using Cons.prems(1) x sx walk_plain [of "[x]" "kresolve w f"]
    by (simp add: kresolve_slash)
  ultimately show ?case using Cons.IH [of "f @ ''/'' @ x"] Cons.prems by simp
qed

lemma kresolve_join:
  assumes "f \<noteq> []" and "\<forall>s \<in> set ss. plain s"
  shows "kresolve w (join (f # ss)) = kresolve w f @ ss"
proof -
  have "filter (\<lambda>a. a \<noteq> []) (f # ss) = f # ss"
    using assms by (auto simp: plain_def filter_id_conv)
  moreover have "join_with ''/'' (f # ss) \<noteq> []" using assms(1) by (cases ss) auto
  ultimately show ?thesis using assms
    by (simp add: join_def kresolve_normalize kresolve_segments)
qed

section \<open>delete\<close>

lemma children_upd [simp]:
  "children (w\<lparr>trace := t\<rparr>) q = children w q"
  "children (w\<lparr>fds := fs\<rparr>) q = children w q"
  by (simp_all add: children_def)

lemma children_delete_aux:
  "map (\<lambda>(r, n). last r) (filter (\<lambda>(r, n). r \<noteq> [] \<and> butlast r = q) (AList.delete p ns))
   = filter (\<lambda>y. q @ [y] \<noteq> p) (map (\<lambda>(r, n). last r) (filter (\<lambda>(r, n). r \<noteq> [] \<and> butlast r = q) ns))"
proof -
  have e: "\<And>a. a \<noteq> [] \<Longrightarrow> p \<noteq> [] \<Longrightarrow> butlast p = butlast a \<Longrightarrow> last p = last a \<Longrightarrow> a = p"
    by (metis append_butlast_last_id)
  show ?thesis
    by (induction ns) (auto simp: snoc_eq_iff_butlast dest: e)
qed

lemma children_delete:
  "children (w\<lparr>nodes := AList.delete p (nodes w)\<rparr>) q = filter (\<lambda>y. q @ [y] \<noteq> p) (children w q)"
  by (simp add: children_def children_delete_aux)

lemma child_listed: "lookup w (q @ [y]) = Some n \<Longrightarrow> y \<in> set (children w q)"
proof -
  assume "lookup w (q @ [y]) = Some n"
  then have "(q @ [y], n) \<in> set (nodes w)" by (auto simp: lookup_def dest: map_of_SomeD)
  then show ?thesis by (force simp: children_def)
qed

lemma delete_loop_stop:
  assumes "constructed d" and "plain x" and "\<forall>s \<in> set ds. plain s"
    and "lookup v (folder_path d v @ ds) = Some Dir"
    and "children v (folder_path d v @ ds) \<noteq> []"
  shows "delete_loop d (x # rev ds) v = (Inr (), v)"
proof -
  have f: "path_folder d \<noteq> []" using assms(1) by (simp add: constructed_def)
  have k: "kresolve v (join (path_folder d # ds)) = folder_path d v @ ds"
    using kresolve_join [OF f assms(3)] by (simp add: folder_path_def)
  show ?thesis using assms(2,4,5) k by (simp add: plain_def readdir_def Let_def)
qed

lemma delete_loop_step:
  assumes "constructed d" and "plain x" and "\<forall>s \<in> set ds. plain s"
    and "lookup v (folder_path d v @ ds) = Some Dir"
    and "children v (folder_path d v @ ds) = []" and "ds \<noteq> []"
  shows "delete_loop d (x # rev ds) v =
           delete_loop d (rev ds)
             (v\<lparr>nodes := AList.delete (folder_path d v @ ds) (nodes v),
                trace := trace v @ [Rmdir (folder_path d v @ ds)]\<rparr>)"
proof -
  have f: "path_folder d \<noteq> []" using assms(1) by (simp add: constructed_def)
  have k: "kresolve v (join (path_folder d # ds)) = folder_path d v @ ds"
    using kresolve_join [OF f assms(3)] by (simp add: folder_path_def)
  show ?thesis using assms(2,4,5,6) k by (simp add: plain_def readdir_def rmdir_def Let_def)
qed

lemma trace_rmdirs: "trace (rmdirs ps v) = trace v @ map Rmdir ps"
  by (induction ps arbitrary: v) auto

lemma rmdirs_fields [simp]:
  "cwd (rmdirs ps v) = cwd v" "fds (rmdirs ps v) = fds v"
  "dir_size (rmdirs ps v) = dir_size v"
  by (induction ps arbitrary: v) auto

lemma folder_path_rmdirs [simp]: "folder_path d (rmdirs ps v) = folder_path d v"
  by (simp add: folder_path_def kresolve_def)

lemma sentinel_path_rmdirs [simp]: "sentinel_path d (rmdirs ps v) = sentinel_path d v"
  by (simp add: sentinel_path_def kresolve_def)

lemma lookup_rmdirs:
  "[] \<notin> set ps \<Longrightarrow> lookup (rmdirs ps v) q = (if q \<in> set ps then None else lookup v q)"
proof (induction ps arbitrary: v)
  case Nil
  then show ?case by simp
next
  case (Cons p ps)
  let ?v1 = "v\<lparr>nodes := AList.delete p (nodes v), trace := trace v @ [Rmdir p]\<rparr>"
  have ih: "lookup (rmdirs ps ?v1) q = (if q \<in> set ps then None else lookup ?v1 q)"
    using Cons.IH [of ?v1] Cons.prems by simp
  have l1: "lookup ?v1 q = (if q = [] then Some Dir else if q = p then None else lookup v q)"
    by (simp add: lookup_delete)
  show ?case
  proof (cases "q = []")
    case True
    then have "q \<notin> set (p # ps)" using Cons.prems by auto
    moreover have "lookup ?v1 q = lookup v q" using True by (simp add: lookup_def)
    ultimately show ?thesis using ih by simp
  next
    case False
    then show ?thesis using ih l1 by (auto simp: lookup_delete)
  qed
qed

lemma emptied_upd [simp]:
  "emptied (w\<lparr>trace := t\<rparr>) fp rs x = emptied w fp rs x"
  "emptied (w\<lparr>fds := fs\<rparr>) fp rs x = emptied w fp rs x"
  by (induction rs arbitrary: x) simp_all

lemma emptied_paths:
  "p \<in> set (emptied w fp rs x) \<Longrightarrow> \<exists>j. 0 < j \<and> j \<le> length rs \<and> p = fp @ take j (rev rs)"
proof (induction rs arbitrary: x)
  case Nil
  then show ?case by simp
next
  case (Cons y rs)
  from Cons.prems have "p = fp @ rev (y # rs) \<or> p \<in> set (emptied w fp rs y)"
    by (auto split: if_splits)
  then show ?case
  proof
    assume "p = fp @ rev (y # rs)"
    then show ?thesis by (intro exI [of _ "Suc (length rs)"]) simp
  next
    assume "p \<in> set (emptied w fp rs y)"
    from Cons.IH [OF this] obtain j where j: "0 < j" "j \<le> length rs" "p = fp @ take j (rev rs)"
      by blast
    then show ?thesis by (intro exI [of _ j]) simp
  qed
qed

lemma emptied_delete_deeper:
  "length fp + length rs + 1 < length p \<Longrightarrow>
   emptied (w\<lparr>nodes := AList.delete p (nodes w)\<rparr>) fp rs x = emptied w fp rs x"
proof (induction rs arbitrary: x)
  case Nil
  then show ?case by simp
next
  case (Cons y rs)
  let ?q = "fp @ rev (y # rs)"
  have "\<And>z. ?q @ [z] \<noteq> p" using Cons.prems by auto
  then have ch: "children (w\<lparr>nodes := AList.delete p (nodes w)\<rparr>) ?q = children w ?q"
    by (simp add: children_delete)
  have ih: "emptied (w\<lparr>nodes := AList.delete p (nodes w)\<rparr>) fp rs y = emptied w fp rs y"
    using Cons.IH [of y] Cons.prems by simp
  show ?case by (simp only: emptied.simps ch ih)
qed

lemma sole_chain_upd [simp]:
  "sole_chain (w\<lparr>trace := t\<rparr>) fp rs x = sole_chain w fp rs x"
  "sole_chain (w\<lparr>fds := fs\<rparr>) fp rs x = sole_chain w fp rs x"
  by (induction rs arbitrary: x) simp_all

lemma sole_chain_emptied:
  "sole_chain w fp rs x \<Longrightarrow> emptied w fp rs x = ancestors fp rs"
  by (induction rs arbitrary: x) simp_all

lemma sibling_emptied:
  "\<exists>z \<in> set (children w (fp @ dirs)). z \<noteq> x \<Longrightarrow> emptied w fp (rev dirs) x = []"
  by (cases "rev dirs") (auto simp: list_all_iff)

lemma delete_loop_emptied:
  assumes c: "constructed d" and x: "plain x" and rs: "\<forall>s \<in> set rs. plain s"
    and di: "\<forall>j \<le> length rs. lookup v0 (fp @ take j (rev rs)) = Some Dir"
    and se: "lookup v0 (fp @ [''diskio.dat'']) = Some (File sc)"
    and fp: "fp = folder_path d v0"
    and ns: "rev rs @ [x] \<noteq> [''diskio.dat'']"
    and v: "v = v0\<lparr>nodes := AList.delete (fp @ rev rs @ [x]) (nodes v0), trace := t\<rparr>"
  shows "delete_loop d (x # rs) v = (Inr (), rmdirs (emptied v0 fp rs x) v)"
  using x rs di se fp ns v
proof (induction rs arbitrary: x v0 v t)
  case Nil
  have f: "folder_path d v = fp" using Nil by simp
  have "lookup v0 fp = Some Dir" using Nil.prems(3) by simp
  then have q1: "lookup v fp = Some Dir"
    using Nil.prems(7) by (auto simp: lookup_delete lookup_def)
  have 1: "lookup v (folder_path d v @ []) = Some Dir"
    unfolding f using q1 by simp
  have m: "''diskio.dat'' \<in> set (children v0 fp)" using Nil.prems(4) by (rule child_listed)
  have cv: "children v fp = filter (\<lambda>z. fp @ [z] \<noteq> fp @ [x]) (children v0 fp)"
    using Nil.prems(7) by (simp add: children_delete)
  have "''diskio.dat'' \<in> set (children v fp)"
    using m Nil.prems(6) by (simp add: cv)
  then have 2: "children v (folder_path d v @ []) \<noteq> []"
    unfolding f by auto
  from delete_loop_stop [OF c Nil.prems(1) _ 1 2] show ?case by simp
next
  case (Cons y rs)
  let ?top = "fp @ rev (y # rs)"
  let ?p = "fp @ rev (y # rs) @ [x]"
  let ?v1 = "v\<lparr>nodes := AList.delete ?top (nodes v), trace := trace v @ [Rmdir ?top]\<rparr>"
  have f: "folder_path d v = fp" using Cons.prems by simp
  have top0: "lookup v0 ?top = Some Dir"
    using Cons.prems(3) [rule_format, of "Suc (length rs)"] by simp
  have q1: "lookup v ?top = Some Dir"
    using top0 Cons.prems(7) by (simp add: lookup_delete)
  have 1: "lookup v (folder_path d v @ rev (y # rs)) = Some Dir"
    unfolding f by (rule q1)
  have cv: "children v ?top = filter (\<lambda>z. z \<noteq> x) (children v0 ?top)"
    using Cons.prems(7) by (simp add: children_delete)
  have pl: "\<forall>s \<in> set (rev (y # rs)). plain s" using Cons.prems(2) by simp
  show ?case
  proof (cases "list_all (\<lambda>z. z = x) (children v0 ?top)")
    case False
    then have "filter (\<lambda>z. z \<noteq> x) (children v0 ?top) \<noteq> []"
      by (auto simp: list_all_iff filter_empty_conv)
    then have "children v ?top \<noteq> []" unfolding cv .
    then have 2: "children v (folder_path d v @ rev (y # rs)) \<noteq> []" unfolding f .
    have "delete_loop d (x # rev (rev (y # rs))) v = (Inr (), v)"
      by (rule delete_loop_stop [OF c Cons.prems(1) pl 1 2])
    then show ?thesis using False by simp
  next
    case True
    then have "filter (\<lambda>z. z \<noteq> x) (children v0 ?top) = []"
      by (auto simp: list_all_iff filter_empty_conv)
    then have "children v ?top = []" unfolding cv .
    then have 2: "children v (folder_path d v @ rev (y # rs)) = []" unfolding f .
    have st: "delete_loop d (x # y # rs) v = delete_loop d (y # rs) ?v1"
      using delete_loop_step [OF c Cons.prems(1) pl 1 2] by (simp add: f)
    have a1: "plain y" "\<forall>s \<in> set rs. plain s" using Cons.prems(2) by simp_all
    have a3: "\<forall>j \<le> length rs. lookup v (fp @ take j (rev rs)) = Some Dir"
    proof (intro allI impI)
      fix j
      assume j: "j \<le> length rs"
      have "j \<le> length (y # rs)" using j by simp
      with Cons.prems(3) have "lookup v0 (fp @ take j (rev (y # rs))) = Some Dir" by blast
      then have l0: "lookup v0 (fp @ take j (rev rs)) = Some Dir" using j by simp
      have "fp @ take j (rev rs) \<noteq> ?p" using j by (auto dest: arg_cong [where f = length])
      then show "lookup v (fp @ take j (rev rs)) = Some Dir"
        using l0 Cons.prems(7) by (auto simp: lookup_delete lookup_def)
    qed
    have a4: "lookup v (fp @ [''diskio.dat'']) = Some (File sc)"
      using Cons.prems(4,7) by (simp add: lookup_delete)
    have a6: "fp = folder_path d v" using f by simp
    have a7: "rev rs @ [y] \<noteq> [''diskio.dat'']"
    proof
      assume e: "rev rs @ [y] = [''diskio.dat'']"
      then have "?top = fp @ [''diskio.dat'']" by simp
      with top0 Cons.prems(4) show False by simp
    qed
    have a8: "?v1 = v\<lparr>nodes := AList.delete (fp @ rev rs @ [y]) (nodes v),
                       trace := trace v @ [Rmdir ?top]\<rparr>" by simp
    have em: "emptied v fp rs y = emptied v0 fp rs y"
      using emptied_delete_deeper [of fp rs ?p v0 y] Cons.prems(7) by simp
    from Cons.IH [OF a1 a3 a4 a6 a7 a8] st em True show ?thesis by simp
  qed
qed

lemma delete_start:
  assumes c: "constructed d" and pl: "\<forall>s \<in> set name. plain s"
    and fi: "lookup w (folder_path d w @ name) = Some (File cf)"
    and op: "map_of (fds w) fh = Some q"
  shows "delete d fh name w =
           (case delete_loop d (rev name) (unlinked w fh (folder_path d w @ name)) of
              (Inl e, w3) \<Rightarrow> (Inl e, w3)
            | (Inr u, w3) \<Rightarrow> stabilize d (RESERVED_SIZE d) w3)"
proof -
  let ?w1 = "w\<lparr>fds := AList.delete fh (fds w), trace := trace w @ [Close fh]\<rparr>"
  have f: "path_folder d \<noteq> []" using c by (simp add: constructed_def)
  have cl: "fh_close w fh = (Inr (), ?w1)" using op by (simp add: fh_close_def)
  have k: "kresolve w (join [join (path_folder d # name)]) = folder_path d w @ name"
    using kresolve_join [OF f pl, of w] by (simp add: join_single join_nonempty folder_path_def)
  have un: "unlink ?w1 (join [join (path_folder d # name)])
              = (Inr (), unlinked w fh (folder_path d w @ name))"
    using fi by (simp add: unlink_def k Let_def unlinked_def)
  show ?thesis by (simp add: delete_def cl un Let_def)
qed

lemma stabilize_after:
  assumes "lookup v (sentinel_path d v) = Some (File sc)"
    and "lookup v (folder_path d v) = Some Dir"
    and "shell_word (path_folder d)"
  shows "\<exists>v' k. stabilize d e v = (Inr (), v')
            \<and> trace v' = trace v @ [Truncate (sentinel_path d v) k]
            \<and> fds v' = fds v
            \<and> (\<forall>q. q \<noteq> sentinel_path d v \<longrightarrow> lookup v' q = lookup v q)"
proof -
  have ne: "sentinel_path d v \<noteq> []" using assms(1) by (rule lookup_File_nonroot)
  show ?thesis
    using stabilize_existing [OF assms, of e] ne
    by (auto simp: resized_def Let_def lookup_def update_conv')
qed

lemma unlinked_fields [simp]:
  "cwd (unlinked w fh p) = cwd w" "trace (unlinked w fh p) = trace w @ [Close fh, Unlink p]"
  "fds (unlinked w fh p) = AList.delete fh (fds w)"
  "folder_path d (unlinked w fh p) = folder_path d w"
  "sentinel_path d (unlinked w fh p) = sentinel_path d w"
  by (simp_all add: unlinked_def)

lemma lookup_unlinked:
  "lookup (unlinked w fh p) q = (if q = [] then Some Dir else if q = p then None else lookup w q)"
  by (simp add: unlinked_def lookup_def delete_conv')

lemma children_unlinked:
  "children (unlinked w fh p) q = filter (\<lambda>y. q @ [y] \<noteq> p) (children w q)"
  using children_delete [where w = w and p = p and q = q] by (simp add: unlinked_def children_def)


text \<open>
  C7. On a constructed instance with its folder and sentinel in place and a folder name
  that the shell passes on as it is, for a managed file \<open>dirs/leaf\<close> of plain segments
  below directories, open as \<open>fh\<close>: \<open>delete\<close> returns without an error; it closes the
  handle, then unlinks the file, then removes directories, then stabilizes, in this
  order. The directories it removes are the parents that are empty once the entry
  below them is gone, from the directory of the file upwards, up to the first one that
  holds something else; the folder itself is never one of them. Nothing else changes
  but the sentinel. When each directory of \<open>dirs\<close> holds nothing but the next one, and
  the last nothing but the file, these are all the directories of \<open>dirs\<close>; when the
  directory of the file holds another entry, there are none.
\<close>

theorem delete_cascade:
  assumes c: "constructed d"
    and sw: "shell_word (path_folder d)"
    and pl: "\<forall>s \<in> set (dirs @ [leaf]). plain s"
    and di: "\<forall>j \<le> length dirs. lookup w (folder_path d w @ take j dirs) = Some Dir"
    and se: "lookup w (sentinel_path d w) = Some (File sc)"
    and fi: "lookup w (folder_path d w @ dirs @ [leaf]) = Some (File cf)"
    and ns: "dirs @ [leaf] \<noteq> [''diskio.dat'']"
    and op: "map_of (fds w) fh = Some o_path"
  shows "(\<exists>w' k. delete d fh (dirs @ [leaf]) w = (Inr (), w')
           \<and> trace w' = trace w @ [Close fh, Unlink (folder_path d w @ dirs @ [leaf])]
                @ map Rmdir (emptied w (folder_path d w) (rev dirs) leaf)
                @ [Truncate (sentinel_path d w) k]
           \<and> map_of (fds w') fh = None
           \<and> (\<forall>q. q \<noteq> sentinel_path d w \<longrightarrow>
                 lookup w' q =
                   (if q = folder_path d w @ dirs @ [leaf]
                       \<or> q \<in> set (emptied w (folder_path d w) (rev dirs) leaf)
                    then None else lookup w q)))
       \<and> folder_path d w \<notin> set (emptied w (folder_path d w) (rev dirs) leaf)
       \<and> (sole_chain w (folder_path d w) (rev dirs) leaf \<longrightarrow>
            emptied w (folder_path d w) (rev dirs) leaf = ancestors (folder_path d w) (rev dirs))
       \<and> ((\<exists>x \<in> set (children w (folder_path d w @ dirs)). x \<noteq> leaf) \<longrightarrow>
            emptied w (folder_path d w) (rev dirs) leaf = [])"
proof -
  let ?fp = "folder_path d w" and ?sp = "sentinel_path d w"
  let ?P = "?fp @ dirs @ [leaf]"
  let ?w2 = "unlinked w fh ?P"
  let ?E = "emptied w ?fp (rev dirs) leaf"
  let ?w3 = "rmdirs ?E ?w2"
  have sp: "?sp = ?fp @ [''diskio.dat'']" using c by (rule sentinel_in_folder)
  have nsp: "?P \<noteq> ?sp" using ns sp by simp
  have fo: "lookup w ?fp = Some Dir" using di [rule_format, of 0] by simp
  have st: "delete d fh (dirs @ [leaf]) w =
           (case delete_loop d (leaf # rev dirs) ?w2 of
              (Inl e, w3) \<Rightarrow> (Inl e, w3)
            | (Inr u, w3) \<Rightarrow> stabilize d (RESERVED_SIZE d) w3)"
    using delete_start [OF c pl _ op, of cf] fi by simp
  have x: "plain leaf" and ds: "\<forall>s \<in> set (rev dirs). plain s" using pl by simp_all
  have se2: "lookup ?w2 ?sp = Some (File sc)"
    using se nsp lookup_File_nonroot [OF se] by (simp add: lookup_unlinked)
  have fo2: "lookup ?w2 ?fp = Some Dir"
    using fo by (cases "?fp = []") (simp_all add: lookup_unlinked)
  let ?v0 = "w\<lparr>fds := AList.delete fh (fds w)\<rparr>"
  have di0: "\<forall>j \<le> length (rev dirs). lookup ?v0 (?fp @ take j (rev (rev dirs))) = Some Dir"
    using di by simp
  have se0: "lookup ?v0 (?fp @ [''diskio.dat'']) = Some (File sc)" using se sp by simp
  have fp0: "?fp = folder_path d ?v0" by simp
  have ns0: "rev (rev dirs) @ [leaf] \<noteq> [''diskio.dat'']" using ns by simp
  have v0: "?w2 = ?v0\<lparr>nodes := AList.delete (?fp @ rev (rev dirs) @ [leaf]) (nodes ?v0),
                        trace := trace w @ [Close fh, Unlink ?P]\<rparr>"
    by (simp add: unlinked_def)
  have lp: "delete_loop d (leaf # rev dirs) ?w2 = (Inr (), ?w3)"
    using delete_loop_emptied [OF c x ds di0 se0 fp0 ns0 v0] by simp
  have ep: "\<And>p. p \<in> set ?E \<Longrightarrow> \<exists>j. 0 < j \<and> j \<le> length dirs \<and> p = ?fp @ take j dirs"
    using emptied_paths [of _ w ?fp "rev dirs" leaf] by simp
  have ed: "\<And>p. p \<in> set ?E \<Longrightarrow> lookup w p = Some Dir \<and> p \<noteq> ?fp \<and> p \<noteq> []"
  proof -
    fix p
    assume "p \<in> set ?E"
    from ep [OF this] obtain j where j: "0 < j" "j \<le> length dirs" "p = ?fp @ take j dirs"
      by blast
    have "take j dirs \<noteq> []" using j(1,2) by (cases dirs) auto
    then show "lookup w p = Some Dir \<and> p \<noteq> ?fp \<and> p \<noteq> []" using di j by simp
  qed
  have n0: "[] \<notin> set ?E" using ed by blast
  have nfp: "?fp \<notin> set ?E" using ed by blast
  have nse: "?sp \<notin> set ?E" using ed se by force
  have se3: "lookup ?w3 (sentinel_path d ?w3) = Some (File sc)"
    using se2 nse by (simp add: lookup_rmdirs [OF n0])
  have fo3: "lookup ?w3 (folder_path d ?w3) = Some Dir"
    using fo2 nfp by (simp add: lookup_rmdirs [OF n0])
  from stabilize_after [OF se3 fo3 sw, of "RESERVED_SIZE d"] obtain v' k where
    v': "stabilize d (RESERVED_SIZE d) ?w3 = (Inr (), v')"
        "trace v' = trace ?w3 @ [Truncate (sentinel_path d ?w3) k]"
        "fds v' = fds ?w3"
        "\<forall>q. q \<noteq> sentinel_path d ?w3 \<longrightarrow> lookup v' q = lookup ?w3 q"
    by blast
  have r1: "delete d fh (dirs @ [leaf]) w = (Inr (), v')"
    unfolding st lp using v'(1) by simp
  have r2: "trace v' = trace w @ [Close fh, Unlink ?P] @ map Rmdir ?E @ [Truncate ?sp k]"
    using v'(2) by (simp add: trace_rmdirs)
  have r3: "map_of (fds v') fh = None" using v'(3) by (simp add: delete_conv')
  have r4: "\<forall>q. q \<noteq> ?sp \<longrightarrow>
               lookup v' q = (if q = ?P \<or> q \<in> set ?E then None else lookup w q)"
  proof (intro allI impI)
    fix q
    assume q: "q \<noteq> ?sp"
    have a: "lookup v' q = (if q \<in> set ?E then None else lookup ?w2 q)"
      using v'(4) q by (simp add: lookup_rmdirs [OF n0])
    show "lookup v' q = (if q = ?P \<or> q \<in> set ?E then None else lookup w q)"
    proof (cases "q = []")
      case True
      then have "q \<notin> set ?E" "q \<noteq> ?P" using n0 by auto
      moreover have "lookup ?w2 q = lookup w q" using True by (simp add: lookup_def)
      ultimately show ?thesis using a by simp
    next
      case False
      then show ?thesis using a by (auto simp: lookup_unlinked)
    qed
  qed
  have A: "\<exists>w' k. delete d fh (dirs @ [leaf]) w = (Inr (), w')
           \<and> trace w' = trace w @ [Close fh, Unlink ?P] @ map Rmdir ?E @ [Truncate ?sp k]
           \<and> map_of (fds w') fh = None
           \<and> (\<forall>q. q \<noteq> ?sp \<longrightarrow>
                 lookup w' q = (if q = ?P \<or> q \<in> set ?E then None else lookup w q))"
    using r1 r2 r3 r4 by blast
  have B: "sole_chain w ?fp (rev dirs) leaf \<longrightarrow> ?E = ancestors ?fp (rev dirs)"
    by (simp add: sole_chain_emptied)
  have C: "(\<exists>x \<in> set (children w (?fp @ dirs)). x \<noteq> leaf) \<longrightarrow> ?E = []"
    using sibling_emptied [of w ?fp dirs leaf] by blast
  show ?thesis using A nfp B C by blast
qed


theorem delete_cascade_witness:
  "constructed ex_disk \<and> shell_word (path_folder ex_disk)
   \<and> plain ''a'' \<and> plain ''b'' \<and> plain ''c'' \<and> plain ''f''
   \<and> folder_path ex_disk ex_partial = [''data'']
   \<and> lookup ex_partial [''data''] = Some Dir
   \<and> lookup ex_partial [''data'', ''a''] = Some Dir
   \<and> lookup ex_partial [''data'', ''a'', ''b''] = Some Dir
   \<and> lookup ex_partial [''data'', ''a'', ''b'', ''c''] = Some Dir
   \<and> lookup ex_partial (sentinel_path ex_disk ex_partial) = Some (File (replicate 82 0))
   \<and> lookup ex_partial [''data'', ''a'', ''b'', ''c'', ''f''] = Some (File [1, 2, 3, 4, 5, 6])
   \<and> map_of (fds ex_partial) 3 = Some [''data'', ''a'', ''b'', ''c'', ''f'']
   \<and> children ex_partial [''data'', ''a''] = [''x'', ''b'']
   \<and> (\<exists>w' k. delete ex_disk 3 [''a'', ''b'', ''c'', ''f''] ex_partial = (Inr (), w')
         \<and> trace w' = [Close 3, Unlink [''data'', ''a'', ''b'', ''c'', ''f''],
                        Rmdir [''data'', ''a'', ''b'', ''c''], Rmdir [''data'', ''a'', ''b''],
                        Truncate [''data'', ''diskio.dat''] k]
         \<and> lookup w' [''data'', ''a'', ''b'', ''c'', ''f''] = None
         \<and> lookup w' [''data'', ''a'', ''b'', ''c''] = None
         \<and> lookup w' [''data'', ''a'', ''b''] = None
         \<and> lookup w' [''data'', ''a''] = Some Dir
         \<and> lookup w' [''data'', ''a'', ''x''] = Some (File [7, 8])
         \<and> lookup w' [''data''] = Some Dir)
   \<and> sole_chain ex_world [''data''] [''a''] ''f''
   \<and> (\<exists>w' k. delete ex_disk 3 [''a'', ''f''] ex_world = (Inr (), w')
         \<and> trace w' = [Close 3, Unlink [''data'', ''a'', ''f''], Rmdir [''data'', ''a''],
                        Truncate [''data'', ''diskio.dat''] k]
         \<and> lookup w' [''data'', ''a'', ''f''] = None
         \<and> lookup w' [''data'', ''a''] = None
         \<and> lookup w' [''data''] = Some Dir)
   \<and> children ex_siblings [''data'', ''a''] = [''f'', ''g'']
   \<and> (\<exists>w' k. delete ex_disk 3 [''a'', ''f''] ex_siblings = (Inr (), w')
         \<and> trace w' = [Close 3, Unlink [''data'', ''a'', ''f''],
                        Truncate [''data'', ''diskio.dat''] k]
         \<and> lookup w' [''data'', ''a'', ''f''] = None
         \<and> lookup w' [''data'', ''a''] = Some Dir
         \<and> lookup w' [''data'', ''a'', ''g''] = Some (File [7, 8]))"
proof -
  have c: "constructed ex_disk" by code_simp
  have sw: "shell_word (path_folder ex_disk)" by code_simp
  have pa: "plain ''a''" and pb: "plain ''b''" and pc: "plain ''c''" and pf: "plain ''f''"
    by code_simp+
  have ns: "\<And>ds. ds @ [''f''] \<noteq> [''diskio.dat'']" by simp
  have fp: "folder_path ex_disk ex_partial = [''data'']" by code_simp
  have sp: "sentinel_path ex_disk ex_partial = [''data'', ''diskio.dat'']" by code_simp
  have d0: "lookup ex_partial [''data''] = Some Dir" by code_simp
  have d1: "lookup ex_partial [''data'', ''a''] = Some Dir" by code_simp
  have d2: "lookup ex_partial [''data'', ''a'', ''b''] = Some Dir" by code_simp
  have d3: "lookup ex_partial [''data'', ''a'', ''b'', ''c''] = Some Dir" by code_simp
  have se: "lookup ex_partial (sentinel_path ex_disk ex_partial) = Some (File (replicate 82 0))"
    by code_simp
  have fi: "lookup ex_partial [''data'', ''a'', ''b'', ''c'', ''f''] = Some (File [1, 2, 3, 4, 5, 6])"
    by code_simp
  have op: "map_of (fds ex_partial) 3 = Some [''data'', ''a'', ''b'', ''c'', ''f'']" by code_simp
  have ch: "children ex_partial [''data'', ''a''] = [''x'', ''b'']" by code_simp
  have xx: "lookup ex_partial [''data'', ''a'', ''x''] = Some (File [7, 8])" by code_simp
  have tr: "trace ex_partial = []" by code_simp
  have em: "emptied ex_partial [''data''] (rev [''a'', ''b'', ''c'']) ''f''
              = [[''data'', ''a'', ''b'', ''c''], [''data'', ''a'', ''b'']]" by code_simp
  have pl: "\<forall>s \<in> set ([''a'', ''b'', ''c''] @ [''f'']). plain s" using pa pb pc pf by simp
  have di: "\<forall>j \<le> length [''a'', ''b'', ''c''].
              lookup ex_partial (folder_path ex_disk ex_partial @ take j [''a'', ''b'', ''c'']) = Some Dir"
    using d0 d1 d2 d3 by (auto simp: fp le_Suc_eq)
  have fi': "lookup ex_partial (folder_path ex_disk ex_partial @ [''a'', ''b'', ''c''] @ [''f''])
               = Some (File [1, 2, 3, 4, 5, 6])" using fi by (simp add: fp)
  from delete_cascade [OF c sw pl di se fi' ns op] obtain w1 k1 where
    a: "delete ex_disk 3 ([''a'', ''b'', ''c''] @ [''f'']) ex_partial = (Inr (), w1)"
       "trace w1 = trace ex_partial
          @ [Close 3, Unlink (folder_path ex_disk ex_partial @ [''a'', ''b'', ''c''] @ [''f''])]
          @ map Rmdir (emptied ex_partial (folder_path ex_disk ex_partial)
                         (rev [''a'', ''b'', ''c'']) ''f'')
          @ [Truncate (sentinel_path ex_disk ex_partial) k1]"
       "\<forall>q. q \<noteq> sentinel_path ex_disk ex_partial \<longrightarrow>
             lookup w1 q =
               (if q = folder_path ex_disk ex_partial @ [''a'', ''b'', ''c''] @ [''f'']
                   \<or> q \<in> set (emptied ex_partial (folder_path ex_disk ex_partial)
                                 (rev [''a'', ''b'', ''c'']) ''f'')
                then None else lookup ex_partial q)"
    by blast
  have a1: "delete ex_disk 3 [''a'', ''b'', ''c'', ''f''] ex_partial = (Inr (), w1)"
    using a(1) by simp
  have a2: "trace w1 = [Close 3, Unlink [''data'', ''a'', ''b'', ''c'', ''f''],
                        Rmdir [''data'', ''a'', ''b'', ''c''], Rmdir [''data'', ''a'', ''b''],
                        Truncate [''data'', ''diskio.dat''] k1]"
    using a(2) by (simp only: fp sp tr em) simp
  have a3: "\<And>q. q \<noteq> [''data'', ''diskio.dat''] \<Longrightarrow>
             lookup w1 q =
               (if q = [''data'', ''a'', ''b'', ''c'', ''f'']
                   \<or> q \<in> set [[''data'', ''a'', ''b'', ''c''], [''data'', ''a'', ''b'']]
                then None else lookup ex_partial q)"
    using a(3) by (simp only: fp sp em) simp
  have A: "\<exists>w' k. delete ex_disk 3 [''a'', ''b'', ''c'', ''f''] ex_partial = (Inr (), w')
         \<and> trace w' = [Close 3, Unlink [''data'', ''a'', ''b'', ''c'', ''f''],
                        Rmdir [''data'', ''a'', ''b'', ''c''], Rmdir [''data'', ''a'', ''b''],
                        Truncate [''data'', ''diskio.dat''] k]
         \<and> lookup w' [''data'', ''a'', ''b'', ''c'', ''f''] = None
         \<and> lookup w' [''data'', ''a'', ''b'', ''c''] = None
         \<and> lookup w' [''data'', ''a'', ''b''] = None
         \<and> lookup w' [''data'', ''a''] = Some Dir
         \<and> lookup w' [''data'', ''a'', ''x''] = Some (File [7, 8])
         \<and> lookup w' [''data''] = Some Dir"
    using a1 a2 a3 [of "[''data'', ''a'', ''b'', ''c'', ''f'']"]
      a3 [of "[''data'', ''a'', ''b'', ''c'']"] a3 [of "[''data'', ''a'', ''b'']"]
      a3 [of "[''data'', ''a'']"] a3 [of "[''data'', ''a'', ''x'']"] a3 [of "[''data'']"]
      d0 d1 xx
    by (intro exI [of _ w1] exI [of _ k1]) simp
  have fp': "folder_path ex_disk ex_world = [''data'']" by code_simp
  have sp': "sentinel_path ex_disk ex_world = [''data'', ''diskio.dat'']" by code_simp
  have e0: "lookup ex_world [''data''] = Some Dir" by code_simp
  have e1: "lookup ex_world [''data'', ''a''] = Some Dir" by code_simp
  have se': "lookup ex_world (sentinel_path ex_disk ex_world) = Some (File (replicate 90 0))"
    by code_simp
  have fj: "lookup ex_world [''data'', ''a'', ''f''] = Some (File [1, 2, 3, 4, 5, 6])"
    by code_simp
  have op': "map_of (fds ex_world) 3 = Some [''data'', ''a'', ''f'']" by code_simp
  have tr': "trace ex_world = []" by code_simp
  have sc: "sole_chain ex_world [''data''] [''a''] ''f''" by code_simp
  have pl': "\<forall>s \<in> set ([''a''] @ [''f'']). plain s" using pa pf by simp
  have di': "\<forall>j \<le> length [''a''].
              lookup ex_world (folder_path ex_disk ex_world @ take j [''a'']) = Some Dir"
    using e0 e1 by (auto simp: fp' le_Suc_eq)
  have fj': "lookup ex_world (folder_path ex_disk ex_world @ [''a''] @ [''f''])
               = Some (File [1, 2, 3, 4, 5, 6])" using fj by (simp add: fp')
  from delete_cascade [OF c sw pl' di' se' fj' ns op'] obtain w2 k2 where
    b: "delete ex_disk 3 ([''a''] @ [''f'']) ex_world = (Inr (), w2)"
       "trace w2 = trace ex_world
          @ [Close 3, Unlink (folder_path ex_disk ex_world @ [''a''] @ [''f''])]
          @ map Rmdir (emptied ex_world (folder_path ex_disk ex_world) (rev [''a'']) ''f'')
          @ [Truncate (sentinel_path ex_disk ex_world) k2]"
       "\<forall>q. q \<noteq> sentinel_path ex_disk ex_world \<longrightarrow>
             lookup w2 q =
               (if q = folder_path ex_disk ex_world @ [''a''] @ [''f'']
                   \<or> q \<in> set (emptied ex_world (folder_path ex_disk ex_world) (rev [''a'']) ''f'')
                then None else lookup ex_world q)"
       "sole_chain ex_world (folder_path ex_disk ex_world) (rev [''a'']) ''f'' \<longrightarrow>
          emptied ex_world (folder_path ex_disk ex_world) (rev [''a'']) ''f''
            = ancestors (folder_path ex_disk ex_world) (rev [''a''])"
    by blast
  have em': "emptied ex_world [''data''] (rev [''a'']) ''f'' = [[''data'', ''a'']]"
    using b(4) sc by (simp add: fp')
  have b1: "delete ex_disk 3 [''a'', ''f''] ex_world = (Inr (), w2)" using b(1) by simp
  have b2: "trace w2 = [Close 3, Unlink [''data'', ''a'', ''f''], Rmdir [''data'', ''a''],
                        Truncate [''data'', ''diskio.dat''] k2]"
    using b(2) by (simp only: fp' sp' tr' em') simp
  have b3: "\<And>q. q \<noteq> [''data'', ''diskio.dat''] \<Longrightarrow>
             lookup w2 q =
               (if q = [''data'', ''a'', ''f''] \<or> q \<in> set [[''data'', ''a'']]
                then None else lookup ex_world q)"
    using b(3) by (simp only: fp' sp' em') simp
  have B: "\<exists>w' k. delete ex_disk 3 [''a'', ''f''] ex_world = (Inr (), w')
         \<and> trace w' = [Close 3, Unlink [''data'', ''a'', ''f''], Rmdir [''data'', ''a''],
                        Truncate [''data'', ''diskio.dat''] k]
         \<and> lookup w' [''data'', ''a'', ''f''] = None
         \<and> lookup w' [''data'', ''a''] = None
         \<and> lookup w' [''data''] = Some Dir"
    using b1 b2 b3 [of "[''data'', ''a'', ''f'']"] b3 [of "[''data'', ''a'']"]
      b3 [of "[''data'']"] e0
    by (intro exI [of _ w2] exI [of _ k2]) simp
  have fp'': "folder_path ex_disk ex_siblings = [''data'']" by code_simp
  have sp'': "sentinel_path ex_disk ex_siblings = [''data'', ''diskio.dat'']" by code_simp
  have g0: "lookup ex_siblings [''data''] = Some Dir" by code_simp
  have g1: "lookup ex_siblings [''data'', ''a''] = Some Dir" by code_simp
  have se'': "lookup ex_siblings (sentinel_path ex_disk ex_siblings) = Some (File (replicate 88 0))"
    by code_simp
  have fk: "lookup ex_siblings [''data'', ''a'', ''f''] = Some (File [1, 2, 3, 4, 5, 6])"
    by code_simp
  have gg: "lookup ex_siblings [''data'', ''a'', ''g''] = Some (File [7, 8])" by code_simp
  have op'': "map_of (fds ex_siblings) 3 = Some [''data'', ''a'', ''f'']" by code_simp
  have tr'': "trace ex_siblings = []" by code_simp
  have ch'': "children ex_siblings [''data'', ''a''] = [''f'', ''g'']" by code_simp
  have di'': "\<forall>j \<le> length [''a''].
              lookup ex_siblings (folder_path ex_disk ex_siblings @ take j [''a'']) = Some Dir"
    using g0 g1 by (auto simp: fp'' le_Suc_eq)
  have fk': "lookup ex_siblings (folder_path ex_disk ex_siblings @ [''a''] @ [''f''])
               = Some (File [1, 2, 3, 4, 5, 6])" using fk by (simp add: fp'')
  from delete_cascade [OF c sw pl' di'' se'' fk' ns op''] obtain w3 k3 where
    d: "delete ex_disk 3 ([''a''] @ [''f'']) ex_siblings = (Inr (), w3)"
       "trace w3 = trace ex_siblings
          @ [Close 3, Unlink (folder_path ex_disk ex_siblings @ [''a''] @ [''f''])]
          @ map Rmdir (emptied ex_siblings (folder_path ex_disk ex_siblings) (rev [''a'']) ''f'')
          @ [Truncate (sentinel_path ex_disk ex_siblings) k3]"
       "\<forall>q. q \<noteq> sentinel_path ex_disk ex_siblings \<longrightarrow>
             lookup w3 q =
               (if q = folder_path ex_disk ex_siblings @ [''a''] @ [''f'']
                   \<or> q \<in> set (emptied ex_siblings (folder_path ex_disk ex_siblings)
                                 (rev [''a'']) ''f'')
                then None else lookup ex_siblings q)"
       "(\<exists>x \<in> set (children ex_siblings (folder_path ex_disk ex_siblings @ [''a''])). x \<noteq> ''f'') \<longrightarrow>
          emptied ex_siblings (folder_path ex_disk ex_siblings) (rev [''a'']) ''f'' = []"
    by blast
  have em'': "emptied ex_siblings [''data''] (rev [''a'']) ''f'' = []"
    using d(4) ch'' by (simp add: fp'')
  have d1': "delete ex_disk 3 [''a'', ''f''] ex_siblings = (Inr (), w3)" using d(1) by simp
  have d2': "trace w3 = [Close 3, Unlink [''data'', ''a'', ''f''],
                         Truncate [''data'', ''diskio.dat''] k3]"
    using d(2) by (simp only: fp'' sp'' tr'' em'') simp
  have d3': "\<And>q. q \<noteq> [''data'', ''diskio.dat''] \<Longrightarrow>
             lookup w3 q = (if q = [''data'', ''a'', ''f''] then None else lookup ex_siblings q)"
    using d(3) by (simp only: fp'' sp'' em'') simp
  have D: "\<exists>w' k. delete ex_disk 3 [''a'', ''f''] ex_siblings = (Inr (), w')
         \<and> trace w' = [Close 3, Unlink [''data'', ''a'', ''f''],
                        Truncate [''data'', ''diskio.dat''] k]
         \<and> lookup w' [''data'', ''a'', ''f''] = None
         \<and> lookup w' [''data'', ''a''] = Some Dir
         \<and> lookup w' [''data'', ''a'', ''g''] = Some (File [7, 8])"
    using d1' d2' d3' [of "[''data'', ''a'', ''f'']"] d3' [of "[''data'', ''a'']"]
      d3' [of "[''data'', ''a'', ''g'']"] g1 gg
    by (intro exI [of _ w3] exI [of _ k3]) simp
  show ?thesis
    using c sw pa pb pc pf fp d0 d1 d2 d3 se fi op ch A sc B ch'' D by blast
qed

section \<open>write and read from the start of a file\<close>

lemma chunks_less: "0 < b \<Longrightarrow> i < chunks len b \<longleftrightarrow> i * b < len"
proof -
  assume b: "0 < b"
  have "i < chunks len b \<longleftrightarrow> Suc i \<le> (len + b - 1) div b" unfolding chunks_def by linarith
  also have "\<dots> \<longleftrightarrow> Suc i * b \<le> len + b - 1" using b by (simp add: less_eq_div_iff_mult_less_eq)
  also have "\<dots> \<longleftrightarrow> i * b < len" using b by auto
  finally show ?thesis .
qed

lemma neg_div_less:
  fixes i a b :: int
  assumes b: "0 < b"
  shows "i < - ((- a) div b) \<longleftrightarrow> i * b < a"
proof -
  let ?q = "(- a) div b"
  have e: "- a = ?q * b + (- a) mod b" by simp
  have m: "0 \<le> (- a) mod b" "(- a) mod b < b" using b by simp_all
  have lo: "?q * b \<le> - a" using e m(1) by linarith
  have hi: "- a < ?q * b + b" using e m(2) by linarith
  show ?thesis
  proof
    assume "i < - ?q"
    then have "i \<le> - (?q + 1)" by simp
    then have "i * b \<le> (- (?q + 1)) * b" using b by (intro mult_right_mono) simp_all
    moreover have "(- (?q + 1)) * b = - (?q * b) - b" by (simp add: algebra_simps)
    ultimately show "i * b < a" using hi by linarith
  next
    assume l: "i * b < a"
    show "i < - ?q"
    proof (rule ccontr)
      assume "\<not> i < - ?q"
      then have "- ?q \<le> i" by simp
      then have "(- ?q) * b \<le> i * b" using b by (intro mult_right_mono) simp_all
      moreover have "(- ?q) * b = - (?q * b)" by simp
      ultimately show False using lo l by linarith
    qed
  qed
qed

lemma ceil_div_chunks:
  assumes b: "0 < b"
  shows "ceil_div (int len) (int b) = Num (int (chunks len b))"
proof -
  let ?x = "- ((- int len) div int b)"
  have ib: "0 < int b" using b by simp
  have "- 1 < ?x" using neg_div_less [OF ib, of "- 1" "int len"] ib by simp
  then have nn: "0 \<le> ?x" by simp
  have "nat ?x = chunks len b"
  proof (rule ccontr)
    assume ne: "nat ?x \<noteq> chunks len b"
    have c1: "\<And>i. i < nat ?x \<longleftrightarrow> i * b < len"
    proof -
      fix i
      have "i < nat ?x \<longleftrightarrow> int i < ?x" using nn by linarith
      also have "\<dots> \<longleftrightarrow> int i * int b < int len" by (rule neg_div_less [OF ib])
      also have "\<dots> \<longleftrightarrow> i * b < len" by (metis of_nat_less_iff of_nat_mult)
      finally show "i < nat ?x \<longleftrightarrow> i * b < len" .
    qed
    have c2: "\<And>i. i < nat ?x \<longleftrightarrow> i < chunks len b" using c1 chunks_less [OF b] by simp
    from ne have "nat ?x < chunks len b \<or> chunks len b < nat ?x" by linarith
    then show False using c2 [of "nat ?x"] c2 [of "chunks len b"] by auto
  qed
  then have "?x = int (chunks len b)" using nn by linarith
  then show ?thesis using b by (simp add: ceil_div_def)
qed

lemma pwrite_pwrite:
  "pwrite (pwrite c k xs) (k + length xs) ys = pwrite c k (xs @ ys)"
proof (cases "xs = [] \<or> ys = []")
  case True
  then show ?thesis by (auto simp: pwrite_def)
next
  case False
  define A where "A = take k c @ replicate (k - length c) 0"
  define D where "D = drop (k + length xs) c"
  have la: "length A = k" by (simp add: A_def min_def)
  have i: "pwrite c k xs = A @ xs @ D" using False by (simp add: pwrite_def A_def D_def)
  have o: "pwrite (A @ xs @ D) (k + length xs) ys = A @ xs @ ys @ drop (length ys) D"
    using False la by (simp add: pwrite_def)
  have r: "pwrite c k (xs @ ys) = A @ xs @ ys @ drop (k + length xs + length ys) c"
    using False by (simp add: pwrite_def A_def add.assoc)
  have "drop (length ys) D = drop (k + length xs + length ys) c"
    by (simp add: D_def add.commute)
  then show ?thesis by (simp only: i o r)
qed

lemma pwrite_chunk:
  assumes "0 < b"
  shows "pwrite (pwrite c k (take b (drop k data))) (k + b) (drop (k + b) data)
           = pwrite c k (drop k data)"
proof (cases "k + b \<le> length data")
  case True
  then have l: "length (take b (drop k data)) = b" by simp
  have "take b (drop k data) @ drop (k + b) data = drop k data"
    by (metis add.commute append_take_drop_id drop_drop)
  then show ?thesis using pwrite_pwrite [of c k "take b (drop k data)" "drop (k + b) data"] l
    by simp
next
  case False
  then have "drop (k + b) data = []" "take b (drop k data) = drop k data" by simp_all
  then show ?thesis by (simp add: pwrite_def)
qed

lemma update_update: "AList.update k v (AList.update k v' al) = AList.update k v al"
  by (induction al) auto

lemma fh_file_written:
  assumes "fh_file v fh = Some (p, c)"
  shows "fh_file (v\<lparr>nodes := AList.update p (File c') (nodes v), trace := t\<rparr>) fh = Some (p, c')"
proof -
  from assms have m: "map_of (fds v) fh = Some p" and l: "lookup v p = Some (File c)"
    by (auto simp: fh_file_def split: option.splits node.splits)
  have "p \<noteq> []" using l by (rule lookup_File_nonroot)
  then show ?thesis using m by (simp add: fh_file_def lookup_update)
qed

lemma min_fits: "k < n \<Longrightarrow> k + min b (n - k) \<le> (n::nat)"
  by arith

lemma fh_write_ok:
  assumes "fh_file v fh = Some (p, c)" and "data \<noteq> []" and "off + n \<le> length data"
  shows "fh_write v fh data (int off) (int n) (int pos) =
           (Inr (length (take n (drop off data))),
            v\<lparr>nodes := AList.update p (File (pwrite c pos (take n (drop off data)))) (nodes v),
              trace := trace v @ [FhWrite fh (int off) (int n) (int pos)]\<rparr>)"
  using assms by (simp add: fh_write_def Let_def)

lemma write_loop_zero:
  assumes b: "0 < b" and o: "optimal d = int b"
  shows "fh_file v fh = Some (p, c) \<Longrightarrow> i * b \<le> length data \<Longrightarrow>
         write_loop d fh data 0 (Num (int (chunks (length data) b))) (int i) v =
           Some (Inr (),
             v\<lparr>nodes := AList.update p (File (pwrite c (i * b) (drop (i * b) data))) (nodes v),
               trace := trace v @ map (chunk_write fh (length data) b) [i..<chunks (length data) b]\<rparr>)"
proof (induction "length data - i * b" arbitrary: i v c rule: less_induct)
  case less
  let ?n = "chunks (length data) b"
  from less.prems(1) have m: "map_of (fds v) fh = Some p" and l: "lookup v p = Some (File c)"
    by (auto simp: fh_file_def split: option.splits node.splits)
  have pn: "p \<noteq> []" using l by (rule lookup_File_nonroot)
  then have mp: "map_of (nodes v) p = Some (File c)" using l by (simp add: lookup_def)
  show ?case
  proof (cases "i * b < length data")
    case False
    then have e: "i * b = length data" using less.prems(2) by simp
    have ni: "\<not> i < ?n" using False chunks_less [OF b] by simp
    then have u: "[i..<?n] = []" by simp
    have "AList.update p (File c) (nodes v) = nodes v" using mp by (rule update_triv)
    then show ?thesis using ni u e
      by (subst write_loop.simps) (simp add: less_number_def pwrite_def)
  next
    case True
    then have lt: "i < ?n" using chunks_less [OF b] by simp
    let ?bs = "take b (drop (i * b) data)"
    let ?v1 = "v\<lparr>nodes := AList.update p (File (pwrite c (i * b) ?bs)) (nodes v),
                  trace := trace v @ [chunk_write fh (length data) b i]\<rparr>"
    have ne: "data \<noteq> []" using True by auto
    define r where "r = length data - i * b"
    have df: "int (length data) - int (i * b) = int r"
      unfolding r_def by (rule of_nat_diff [OF less_imp_le [OF True], symmetric])
    have A: "(if int b > int r then int r else int b) = int (min b r)"
      by (simp add: min_def)
    then have len: "(if int b > int (length data) - int (i * b)
                then int (length data) - int (i * b) else int b)
               = int (min b (length data - i * b))"
      unfolding df r_def .
    have "take (min b r) (drop (i * b) data) = ?bs"
      unfolding r_def by (simp add: min_def)
    then have tk: "take (min b (length data - i * b)) (drop (i * b) data) = ?bs"
      unfolding r_def .
    have bd: "i * b + min b (length data - i * b) \<le> length data"
      using True by (rule min_fits)
    have w: "fh_write v fh data (int (i * b)) (int (min b (length data - i * b))) (int (i * b))
               = (Inr (length ?bs), ?v1)"
      using fh_write_ok [OF less.prems(1) ne bd, of "i * b"]
      by (simp only: tk chunk_write_def)
    have f1: "fh_file ?v1 fh = Some (p, pwrite c (i * b) ?bs)"
      using less.prems(1) by (rule fh_file_written)
    have step: "write_loop d fh data 0 (Num (int ?n)) (int i) v
                  = write_loop d fh data 0 (Num (int ?n)) (int (Suc i)) ?v1"
    proof -
      have len': "(if int b > int (length data) - int i * int b
                then int (length data) - int i * int b else int b)
               = int (min b (length data - i * b))"
      proof -
        have df': "int (length data) - int i * int b = int r" using df by simp
        show ?thesis unfolding df' r_def [symmetric] by (rule A)
      qed
      have w': "fh_write v fh data (int i * int b) (int (min b (length data - i * b)))
                  (int i * int b) = (Inr (length ?bs), ?v1)"
        using w by simp
      have ix: "int i + 1 = int (Suc i)" by simp
      show ?thesis
        by (subst write_loop.simps)
           (simp only: less_number_def number.case of_nat_less_iff lt if_True o add_0 len' w'
              prod.case sum.case ix)
    qed
    show ?thesis
    proof (cases "Suc i * b \<le> length data")
      case le: True
      have dec: "length data - Suc i * b < length data - i * b" using le b by simp
      have ih: "write_loop d fh data 0 (Num (int ?n)) (int (Suc i)) ?v1 =
           Some (Inr (),
             ?v1\<lparr>nodes := AList.update p
                 (File (pwrite (pwrite c (i * b) ?bs) (Suc i * b) (drop (Suc i * b) data))) (nodes ?v1),
               trace := trace ?v1 @ map (chunk_write fh (length data) b) [Suc i..<?n]\<rparr>)"
        by (rule less.hyps [OF dec f1 le])
      have pw: "pwrite (pwrite c (i * b) ?bs) (Suc i * b) (drop (Suc i * b) data)
                  = pwrite c (i * b) (drop (i * b) data)"
        using pwrite_chunk [OF b, of c "i * b" data] by (simp add: add.commute)
      have up: "[i..<?n] = i # [Suc i..<?n]" using lt by (simp add: upt_conv_Cons)
      have "write_loop d fh data 0 (Num (int ?n)) (int i) v =
           Some (Inr (),
             ?v1\<lparr>nodes := AList.update p
                 (File (pwrite (pwrite c (i * b) ?bs) (Suc i * b) (drop (Suc i * b) data))) (nodes ?v1),
               trace := trace ?v1 @ map (chunk_write fh (length data) b) [Suc i..<?n]\<rparr>)"
        by (simp only: step ih)
      then show ?thesis unfolding pw up by (simp add: update_update)
    next
      case gt: False
      have nx: "\<not> Suc i < ?n" using gt chunks_less [OF b, of "Suc i" "length data"] by simp
      have up: "[i..<?n] = [i]" using lt nx by (simp add: upt_conv_Cons)
      have bs: "?bs = drop (i * b) data" using gt by simp
      have lp: "write_loop d fh data 0 (Num (int ?n)) (int (Suc i)) ?v1 = Some (Inr (), ?v1)"
        using nx by (subst write_loop.simps) (simp add: less_number_def del: of_nat_Suc)
      have "write_loop d fh data 0 (Num (int ?n)) (int i) v = Some (Inr (), ?v1)"
        by (simp only: step lp)
      then show ?thesis by (simp add: up bs)
    qed
  qed
qed

lemma allocate_fits:
  assumes se: "lookup w (sentinel_path d w) = Some (File sc)" and le: "n \<le> length sc"
  shows "allocate d (int n) w =
           (Inr (), w\<lparr>nodes := AList.update (sentinel_path d w)
                                (File (resize sc (length sc - n))) (nodes w),
                      trace := trace w @ [Truncate (sentinel_path d w) (length sc - n)]\<rparr>)"
proof -
  have k: "nat (int (length sc) - int n) = length sc - n" using le by simp
  have s: "size_diskio d w = Inr (int (length sc))"
    using se by (simp add: size_diskio_def stat_size_def node_size_def sentinel_path_def)
  show ?thesis using se le
    by (simp add: allocate_def s fs_truncate_def set_length_def Let_def sentinel_path_def k)
qed

lemma allocate_refuses:
  assumes se: "lookup w (sentinel_path d w) = Some (File sc)" and gt: "length sc < n"
  shows "allocate d (int n) w = (Inl (Error ''The size is greater than the available size''), w)"
proof -
  have s: "size_diskio d w = Inr (int (length sc))"
    using se by (simp add: size_diskio_def stat_size_def node_size_def sentinel_path_def)
  show ?thesis using gt by (simp add: allocate_def s)
qed

text \<open>
  At position 0, on a handle open on a file other than the sentinel and with a positive
  block size: \<open>write\<close> returns if the buffer is no longer than the sentinel, and then the
  sentinel is shorter by the buffer's length, the file holds the buffer from offset 0,
  and the calls are the \<open>truncate\<close> and one \<open>fh.write\<close> for each of the
  \<open>chunks (length data) b\<close> chunks; it throws, with no change at all, if the buffer is
  longer than the sentinel.
\<close>

theorem write_from_start:
  assumes b: "0 < b" and o: "optimal d = int b"
    and se: "lookup w (sentinel_path d w) = Some (File sc)"
    and op: "map_of (fds w) fh = Some p"
    and fi: "lookup w p = Some (File c)"
    and ns: "p \<noteq> sentinel_path d w"
  shows "(length data \<le> length sc \<longrightarrow>
           diskio_write d fh data 0 w =
             Some (Inr (),
               w\<lparr>nodes := AList.update p (File (pwrite c 0 data))
                        (AList.update (sentinel_path d w)
                           (File (resize sc (length sc - length data))) (nodes w)),
                 trace := trace w @ [Truncate (sentinel_path d w) (length sc - length data)]
                            @ map (chunk_write fh (length data) b)
                                [0..<chunks (length data) b]\<rparr>))
       \<and> (length sc < length data \<longrightarrow>
           diskio_write d fh data 0 w =
             Some (Inl (Error ''The size is greater than the available size''), w))"
proof (intro conjI impI)
  assume le: "length data \<le> length sc"
  let ?sp = "sentinel_path d w"
  let ?w1 = "w\<lparr>nodes := AList.update ?sp (File (resize sc (length sc - length data))) (nodes w),
                trace := trace w @ [Truncate ?sp (length sc - length data)]\<rparr>"
  have al: "allocate d (int (length data)) w = (Inr (), ?w1)"
    by (rule allocate_fits [OF se le])
  have pn: "p \<noteq> []" using fi by (rule lookup_File_nonroot)
  have f1: "fh_file ?w1 fh = Some (p, c)"
    using op fi ns pn by (simp add: fh_file_def lookup_update)
  have lp: "write_loop d fh data 0 (Num (int (chunks (length data) b))) (int 0) ?w1 =
           Some (Inr (),
             ?w1\<lparr>nodes := AList.update p (File (pwrite c (0 * b) (drop (0 * b) data))) (nodes ?w1),
               trace := trace ?w1 @ map (chunk_write fh (length data) b) [0..<chunks (length data) b]\<rparr>)"
    by (rule write_loop_zero [OF b o f1]) simp
  show "diskio_write d fh data 0 w =
             Some (Inr (),
               w\<lparr>nodes := AList.update p (File (pwrite c 0 data))
                        (AList.update ?sp (File (resize sc (length sc - length data))) (nodes w)),
                 trace := trace w @ [Truncate ?sp (length sc - length data)]
                            @ map (chunk_write fh (length data) b)
                                [0..<chunks (length data) b]\<rparr>)"
    using lp by (simp add: diskio_write_def al o ceil_div_chunks [OF b])
next
  assume gt: "length sc < length data"
  show "diskio_write d fh data 0 w =
             Some (Inl (Error ''The size is greater than the available size''), w)"
    by (simp add: diskio_write_def allocate_refuses [OF se gt])
qed

lemma fh_read_ok:
  assumes "fh_file v fh = Some (p, c)" and "0 < n" and "off + n \<le> length buffer"
  shows "fh_read v fh buffer (int off) (int n) (int pos) =
           (Inr (fill buffer off (pread c pos n)),
            v\<lparr>trace := trace v @ [FhRead fh (int off) (int n) (int pos)]\<rparr>)"
proof -
  have "buffer \<noteq> []" using assms(2,3) by auto
  then show ?thesis using assms by (simp add: fh_read_def)
qed

lemma fh_file_trace [simp]: "fh_file (v\<lparr>trace := t\<rparr>) fh = fh_file v fh"
  unfolding fh_file_def lookup_trace by simp

lemma full_chunk: "0 < b \<Longrightarrow> n mod b = 0 \<Longrightarrow> k * b < n \<Longrightarrow> k * b + b \<le> (n::nat)"
proof -
  assume b: "0 < b" and m: "n mod b = 0" and l: "k * b < n"
  from m have "b dvd n" by (simp add: dvd_eq_mod_eq_0)
  then obtain q where q: "n = q * b" by (auto simp: dvd_def mult.commute)
  with l b have "k < q" by simp
  then have "Suc k \<le> q" by simp
  then have "Suc k * b \<le> q * b" by (rule mult_le_mono1)
  then show ?thesis using q by simp
qed

lemma read_size:
  assumes b: "0 < b" and n: "n \<le> m" and cond: "n mod b = 0 \<or> m = n" and l: "k < n"
    and kb: "k = i * b"
  shows "(if int k + int b > int m then int m - int k else int b) = int (min b (n - k))"
proof (cases "n mod b = 0")
  case True
  have "k + b \<le> n" using full_chunk [OF b True] l kb by simp
  then show ?thesis using n by (simp add: min_def)
next
  case False
  then have "m = n" using cond by simp
  then show ?thesis using l by (auto simp: min_def)
qed

lemma read_loop_zero:
  assumes b: "0 < b" and o: "optimal d = int b"
    and n: "n \<le> length c" and cond: "n mod b = 0 \<or> length c = n"
  shows "fh_file v fh = Some (p, c) \<Longrightarrow> i * b \<le> n \<Longrightarrow>
         read_loop d fh 0 (int (length c)) (Num (int (chunks n b))) (int i)
             (take (i * b) c @ replicate (n - i * b) 0) v =
           Some (Inr (take n c),
             v\<lparr>trace := trace v @ map (chunk_read fh n b) [i..<chunks n b]\<rparr>)"
proof (induction "n - i * b" arbitrary: i v rule: less_induct)
  case less
  let ?N = "chunks n b"
  let ?buf = "take (i * b) c @ replicate (n - i * b) 0"
  show ?case
  proof (cases "i * b < n")
    case False
    then have e: "i * b = n" using less.prems(2) by simp
    have ni: "\<not> i < ?N" using False chunks_less [OF b] by simp
    then have u: "[i..<?N] = []" by simp
    show ?thesis using ni u e
      by (subst read_loop.simps) (simp add: less_number_def)
  next
    case True
    then have lt: "i < ?N" using chunks_less [OF b] by simp
    define k where "k = i * b"
    define r where "r = min b (n - k)"
    let ?v1 = "v\<lparr>trace := trace v @ [chunk_read fh n b i]\<rparr>"
    have kn: "k < n" using True by (simp add: k_def)
    have rpos: "0 < r" using kn b by (simp add: r_def)
    have rfit: "k + r \<le> n" unfolding r_def using kn by (rule min_fits)
    have bl: "length ?buf = n" using less.prems(2) n by simp
    have sz: "(if int k + int b > int (length c) then int (length c) - int k else int b) = int r"
      unfolding r_def by (rule read_size [OF b n cond kn k_def])
    have rd: "fh_read v fh ?buf (int k) (int r) (int k) =
                (Inr (fill ?buf k (pread c k r)), ?v1)"
      using fh_read_ok [OF less.prems(1) rpos, of k ?buf k] rfit bl
      by (simp add: chunk_read_def k_def r_def)
    have tk: "length (take k c) = k" using kn n by simp
    have pl: "length (pread c k r) = r" using rfit n by (simp add: pread_def)
    have fl: "fill ?buf k (pread c k r) = take (k + r) c @ replicate (n - (k + r)) 0"
    proof -
      have "take k ?buf = take k c" using tk by (simp add: k_def)
      moreover have "drop (k + r) ?buf = replicate (n - (k + r)) 0"
        using tk rfit by (simp add: k_def)
      moreover have "take k c @ pread c k r = take (k + r) c"
        by (simp add: pread_def take_add)
      ultimately show ?thesis by (simp add: fill_def pl)
    qed
    have step: "read_loop d fh 0 (int (length c)) (Num (int ?N)) (int i) ?buf v
                  = read_loop d fh 0 (int (length c)) (Num (int ?N)) (int (Suc i))
                      (take (k + r) c @ replicate (n - (k + r)) 0) ?v1"
    proof -
      have ki: "int i * int b = int k" by (simp add: k_def)
      have ix: "int i + 1 = int (Suc i)" by simp
      have rd': "fh_read v fh ?buf (int k) (int r) (int k) =
                (Inr (take (k + r) c @ replicate (n - (k + r)) 0), ?v1)"
        using rd fl by simp
      show ?thesis
        by (subst read_loop.simps)
           (simp only: less_number_def number.case of_nat_less_iff lt if_True o add_0 ki sz rd'
              prod.case sum.case ix)
    qed
    show ?thesis
    proof (cases "Suc i * b \<le> n")
      case le: True
      then have rb: "r = b" by (simp add: r_def k_def min_def)
      have dec: "n - Suc i * b < n - i * b" using le b by simp
      have ih: "read_loop d fh 0 (int (length c)) (Num (int ?N)) (int (Suc i))
                  (take (Suc i * b) c @ replicate (n - Suc i * b) 0) ?v1 =
           Some (Inr (take n c),
             ?v1\<lparr>trace := trace ?v1 @ map (chunk_read fh n b) [Suc i..<?N]\<rparr>)"
        by (rule less.hyps [OF dec _ le]) (simp add: less.prems(1))
      have kr: "k + r = Suc i * b" by (simp add: rb k_def)
      have up: "[i..<?N] = i # [Suc i..<?N]" using lt by (simp add: upt_conv_Cons)
      have "read_loop d fh 0 (int (length c)) (Num (int ?N)) (int i) ?buf v =
           Some (Inr (take n c),
             ?v1\<lparr>trace := trace ?v1 @ map (chunk_read fh n b) [Suc i..<?N]\<rparr>)"
        unfolding step kr by (rule ih)
      then show ?thesis unfolding up by simp
    next
      case gt: False
      then have kr: "k + r = n" using kn by (simp add: r_def k_def min_def)
      have nx: "\<not> Suc i < ?N" using gt chunks_less [OF b, of "Suc i" n] by simp
      have up: "[i..<?N] = [i]" using lt nx by (simp add: upt_conv_Cons)
      have lp: "read_loop d fh 0 (int (length c)) (Num (int ?N)) (int (Suc i))
                  (take n c @ replicate (n - n) 0) ?v1 = Some (Inr (take n c), ?v1)"
        using nx by (subst read_loop.simps) (simp add: less_number_def del: of_nat_Suc)
      have "read_loop d fh 0 (int (length c)) (Num (int ?N)) (int i) ?buf v
              = Some (Inr (take n c), ?v1)"
        unfolding step kr by (rule lp)
      then show ?thesis by (simp add: up)
    qed
  qed
qed

text \<open>
  Reading the first \<open>n\<close> bytes of a file returns them when \<open>n\<close> is a multiple of the
  block size or the file has \<open>n\<close> bytes and no more.
\<close>

theorem read_from_start:
  assumes b: "0 < b" and o: "optimal d = int b"
    and f: "fh_file v fh = Some (p, c)"
    and n: "n \<le> length c" and cond: "n mod b = 0 \<or> length c = n"
  shows "read d fh 0 (int n) v =
           Some (Inr (take n c),
             v\<lparr>trace := trace v @ map (chunk_read fh n b) [0..<chunks n b]\<rparr>)"
proof -
  have s: "fh_stat_size v fh = Inr (int (length c))" using f by (simp add: fh_stat_size_def)
  have lp: "read_loop d fh 0 (int (length c)) (Num (int (chunks n b))) (int 0)
              (take (0 * b) c @ replicate (n - 0 * b) 0) v =
            Some (Inr (take n c),
              v\<lparr>trace := trace v @ map (chunk_read fh n b) [0..<chunks n b]\<rparr>)"
    by (rule read_loop_zero [OF b o n cond f]) simp
  show ?thesis using lp
    by (simp add: read_def s Buffer_alloc_def Let_def o ceil_div_chunks [OF b])
qed

text \<open>
  Writing a buffer at position 0 and reading its length back from 0 returns the buffer,
  when its length is a multiple of the block size or the file was no longer than the
  buffer.
\<close>

theorem write_then_read:
  assumes b: "0 < b" and o: "optimal d = int b"
    and se: "lookup w (sentinel_path d w) = Some (File sc)"
    and op: "map_of (fds w) fh = Some p"
    and fi: "lookup w p = Some (File c)"
    and ns: "p \<noteq> sentinel_path d w"
    and le: "length data \<le> length sc"
    and cond: "length data mod b = 0 \<or> length c \<le> length data"
  shows "\<exists>w1 w2. diskio_write d fh data 0 w = Some (Inr (), w1)
           \<and> read d fh 0 (int (length data)) w1 = Some (Inr data, w2)"
proof -
  let ?sp = "sentinel_path d w"
  let ?w1 = "w\<lparr>nodes := AList.update p (File (pwrite c 0 data))
                        (AList.update ?sp (File (resize sc (length sc - length data))) (nodes w)),
                trace := trace w @ [Truncate ?sp (length sc - length data)]
                            @ map (chunk_write fh (length data) b)
                                [0..<chunks (length data) b]\<rparr>"
  have wr: "diskio_write d fh data 0 w = Some (Inr (), ?w1)"
    using write_from_start [OF b o se op fi ns, of data] le by simp
  have pn: "p \<noteq> []" using fi by (rule lookup_File_nonroot)
  have f1: "fh_file ?w1 fh = Some (p, pwrite c 0 data)"
    using op pn by (simp add: fh_file_def lookup_def update_conv')
  have n1: "length data \<le> length (pwrite c 0 data)" by (simp add: pwrite_def)
  have tk: "take (length data) (pwrite c 0 data) = data" by (simp add: pwrite_def)
  have c1: "length data mod b = 0 \<or> length (pwrite c 0 data) = length data"
    using cond by (auto simp: pwrite_def)
  from read_from_start [OF b o f1 n1 c1] tk wr show ?thesis by simp
qed

section \<open>Where the code departs from the specification\<close>

text \<open>
  C2. The claim: \<open>write\<close> returns if and only if the buffer is no longer than the
  sentinel, and a failing \<open>write\<close> changes nothing. In the example 10 bytes are written
  at position 4 with 90 bytes left: \<open>allocate\<close> shortens the sentinel to 80 bytes, two
  chunks are written, and the third \<open>fh.write\<close>, at buffer offset 12 of 10, throws
  \<open>ERR_OUT_OF_RANGE\<close>. (\<open>write\<close> passes \<open>position + index * optimal\<close> to \<open>fh.write\<close>
  as the offset in the buffer too.)
\<close>

theorem write_fails_after_charge:
  "size_diskio ex_disk ex_world = Inr 90
   \<and> int (length ex_data) \<le> 90
   \<and> diskio_write ex_disk 3 ex_data 4 ex_world =
       Some (Inl ERR_OUT_OF_RANGE,
         ex_world\<lparr>nodes :=
             [([''data''], Dir),
              ([''data'', ''diskio.dat''], File (replicate 80 0)),
              ([''data'', ''a''], Dir),
              ([''data'', ''a'', ''f''], File [1, 2, 3, 4, 15, 16, 17, 18, 19, 20])],
           trace := [Truncate [''data'', ''diskio.dat''] 80, FhWrite 3 4 4 4, FhWrite 3 8 2 8]\<rparr>)"
  by code_simp

text \<open>
  C5. The claim: the chunks write the bytes of the buffer to the file from \<open>position\<close>
  on. In the example 10 bytes are written at position 2 of a file of 6 bytes: the three
  calls write 4, 4 and 0 bytes, bytes 2 to 9 of the buffer go to offsets 2 to 9 of the
  file, and bytes 0 and 1 of the buffer are not written; writing the buffer at offset 2
  gives another file.
\<close>

theorem write_at_position_skips_bytes:
  "diskio_write ex_disk 3 ex_data 2 ex_world =
       Some (Inr (),
         ex_world\<lparr>nodes :=
             [([''data''], Dir),
              ([''data'', ''diskio.dat''], File (replicate 80 0)),
              ([''data'', ''a''], Dir),
              ([''data'', ''a'', ''f''], File [1, 2, 13, 14, 15, 16, 17, 18, 19, 20])],
           trace := [Truncate [''data'', ''diskio.dat''] 80, FhWrite 3 2 4 2, FhWrite 3 6 4 6,
                     FhWrite 3 10 0 10]\<rparr>)
   \<and> pwrite [1, 2, 3, 4, 5, 6] 2 ex_data
         = [1, 2, 11, 12, 13, 14, 15, 16, 17, 18, 19, 20]"
  by code_simp

text \<open>
  C6. The claim: on a file of at least the buffer's size, writing the buffer at 0 and
  reading its length back returns it. In the example 3 bytes are written to a file of 6
  bytes with blocks of 4 bytes: \<open>read\<close> asks \<open>fh.read\<close> for 4 bytes (the block fits in the
  file) into its buffer of 3 bytes, and \<open>fh.read\<close> throws \<open>ERR_OUT_OF_RANGE\<close>.
\<close>

theorem read_back_fails:
  "diskio_write ex_disk 3 [9, 9, 9] 0 ex_world =
       Some (Inr (),
         ex_world\<lparr>nodes :=
             [([''data''], Dir),
              ([''data'', ''diskio.dat''], File (replicate 87 0)),
              ([''data'', ''a''], Dir),
              ([''data'', ''a'', ''f''], File [9, 9, 9, 4, 5, 6])],
           trace := [Truncate [''data'', ''diskio.dat''] 87, FhWrite 3 0 3 0]\<rparr>)
   \<and> read ex_disk 3 0 3
        (ex_world\<lparr>nodes :=
             [([''data''], Dir),
              ([''data'', ''diskio.dat''], File (replicate 87 0)),
              ([''data'', ''a''], Dir),
              ([''data'', ''a'', ''f''], File [9, 9, 9, 4, 5, 6])],
           trace := [Truncate [''data'', ''diskio.dat''] 87, FhWrite 3 0 3 0]\<rparr>) =
       Some (Inl ERR_OUT_OF_RANGE,
         ex_world\<lparr>nodes :=
             [([''data''], Dir),
              ([''data'', ''diskio.dat''], File (replicate 87 0)),
              ([''data'', ''a''], Dir),
              ([''data'', ''a'', ''f''], File [9, 9, 9, 4, 5, 6])],
           trace := [Truncate [''data'', ''diskio.dat''] 87, FhWrite 3 0 3 0]\<rparr>)"
  by code_simp

text \<open>
  C8. The claim: \<open>get\<close> throws for every name that resolves to the sentinel. The
  instance made for \<open>/data/\<close> keeps the folder as \<open>/data/\<close> (\<open>join\<close> keeps the slash at
  the end) and the sentinel as \<open>/data//diskio.dat\<close>; \<open>get\<close> compares this string with
  \<open>join\<close> of the folder and the name, \<open>/data/diskio.dat\<close>, so it returns a file object
  for each of the three names of the claim, and the kernel finds the sentinel at the path
  of that object.
\<close>

theorem get_returns_sentinel:
  "new_DiskIO ex_root ''/data/'' 100 = (Inr slash_disk, ex_ready)
   \<and> get opened slash_disk ''diskio.dat'' ex_ready
         = Some (Inr (DiskIOFile slash_disk [''diskio.dat'']))
   \<and> get opened slash_disk ''/diskio.dat'' ex_ready
         = Some (Inr (DiskIOFile slash_disk [''diskio.dat'']))
   \<and> get opened slash_disk ''//diskio.dat/'' ex_ready
         = Some (Inr (DiskIOFile slash_disk [''diskio.dat'']))
   \<and> getSync slash_disk ''diskio.dat'' = Inr (DiskIOFile slash_disk [''diskio.dat''])
   \<and> kresolve ex_ready (join (path_folder slash_disk # [''diskio.dat'']))
         = sentinel_path slash_disk ex_ready"
  by code_simp

text \<open>On the instance made for \<open>/data\<close> the three names are refused.\<close>

lemma get_refuses_sentinel:
  "new_DiskIO ex_root ''/data'' 100 = (Inr ex_disk, ex_ready)
   \<and> get opened ex_disk ''diskio.dat'' ex_ready
         = Some (Inl (Error ''The name is diskio storage file''))
   \<and> get opened ex_disk ''/diskio.dat'' ex_ready
         = Some (Inl (Error ''The name is diskio storage file''))
   \<and> get opened ex_disk ''//diskio.dat/'' ex_ready
         = Some (Inl (Error ''The name is diskio storage file''))"
  by code_simp

section \<open>The synchronous variants\<close>

lemma existsSync_exists: "existsSync w s = exists_path w s"
  by (simp add: existsSync_def exists_path_def)

lemma stabilizeSync_stabilize: "stabilizeSync d expected w = stabilize d expected w"
  unfolding stabilizeSync_def stabilize_def existsSync_exists writeFileSync_def
    writeFile_def size_diskioSync_def size_diskio_def statSync_size_def stat_size_def
    size_folderSync_def size_folder_def fs_truncateSync_def fs_truncate_def
  by (rule refl)

lemma get_getSync:
  "get rdy d name w =
     (case getSync d name of
        Inl e \<Rightarrow> Some (Inl e)
      | Inr f \<Rightarrow> awaited rdy f w)"
  by (simp add: get_def getSync_def awaited_def Let_def)

lemma awaited_resolved: "awaited resolved f w = Some (Inr f)"
  by (simp add: awaited_def resolved_def)

lemma mkdirSync_mkdir: "mkdirSync w p = mkdir w p"
  by (simp add: mkdirSync_def mkdir_def)

lemma writeFileSync_writeFile: "writeFileSync w p = writeFile w p"
  by (simp add: writeFileSync_def writeFile_def)

lemma create_createSync:
  "create rdy d name uuids w =
     (case createSync d name uuids w of
        Some (Inr f, w') \<Rightarrow>
          (case awaited rdy f w' of None \<Rightarrow> None | Some r \<Rightarrow> Some (r, w'))
      | r \<Rightarrow> r)"
proof (induction uuids arbitrary: w)
  case Nil
  show ?case by simp
next
  case (Cons u us)
  define path where "path = join (path_folder d # split_on CHR ''-'' u)"
  define filePath where "filePath = join [path, name]"
  obtain r1 w1 where m: "mkdir w path = (r1, w1)" by (cases "mkdir w path")
  obtain r2 w2 where f: "writeFile w1 filePath = (r2, w2)" by (cases "writeFile w1 filePath")
  obtain r3 w3 where s: "stabilize d (RESERVED_SIZE d) w2 = (r3, w3)"
    by (cases "stabilize d (RESERVED_SIZE d) w2")
  from m f s show ?case
    by (cases r1; cases r2; cases r3;
        cases "getSync d (replace_first (path_folder d) filePath)";
        cases "exists_path w1 filePath";
        simp add: Let_def path_def [symmetric] filePath_def [symmetric] mkdirSync_mkdir
          existsSync_exists writeFileSync_writeFile stabilizeSync_stabilize Cons.IH get_getSync)
qed

lemma get_resolved: "get resolved d name w = Some (getSync d name)"
  by (simp add: get_getSync awaited_resolved split: sum.splits)

lemma create_resolved: "create resolved d name uuids w = createSync d name uuids w"
  by (simp add: create_createSync awaited_resolved
      split: option.splits prod.splits sum.splits)

text \<open>
  C9, as amended. On every input \<open>stabilizeSync\<close> gives the result and the state that
  \<open>stabilize\<close> gives. \<open>getSync\<close> and \<open>createSync\<close> give the result and the state that
  \<open>get\<close> and \<open>create\<close> reach before they await the promise \<open>ready\<close> of the file
  object: \<open>get\<close> and \<open>create\<close> then await it, so they throw when it rejects and do not
  return when it never settles, where \<open>getSync\<close> and \<open>createSync\<close> return the file
  object. With a promise that resolves the two agree.
\<close>

theorem sync_variants_up_to_ready:
  "stabilizeSync d expected w = stabilize d expected w
   \<and> get rdy d name w =
       (case getSync d name of
          Inl e \<Rightarrow> Some (Inl e)
        | Inr f \<Rightarrow> awaited rdy f w)
   \<and> create rdy d name uuids w =
       (case createSync d name uuids w of
          Some (Inr f, w') \<Rightarrow>
            (case awaited rdy f w' of None \<Rightarrow> None | Some r \<Rightarrow> Some (r, w'))
        | r \<Rightarrow> r)
   \<and> get resolved d name w = Some (getSync d name)
   \<and> create resolved d name uuids w = createSync d name uuids w"
  using stabilizeSync_stabilize get_getSync create_createSync get_resolved create_resolved
  by blast

text \<open>
  The claim as stated fails: the folder of the example has no file \<open>a/g\<close>; with a
  promise that settles as opening the file does, \<open>get\<close> throws \<open>ENOENT\<close> for this name
  and \<open>getSync\<close> returns a file object.
\<close>

theorem getSync_returns_unready_counterexample:
  "get opened ex_disk ''a/g'' ex_world = Some (Inl ENOENT)
   \<and> getSync ex_disk ''a/g'' = Inr (DiskIOFile ex_disk [''a'', ''g''])"
  by code_simp

section \<open>The reservation report\<close>

text \<open>
  C4, as amended. On a folder that exists, with a name that the shell passes on to \<open>du\<close>
  as it is, and whose sentinel is a file, \<open>information.diskio\<close> returns
  \<open>size = RESERVED_SIZE - optimal\<close>, \<open>available\<close> the sentinel's length now,
  \<open>used\<close> the folder's usage now less \<open>available\<close>, and as \<open>capacity\<close> the number
  \<open>Math.round(100 - (used / size) * 100)\<close> followed by the percent sign, where the
  quotient, the product and the difference are each rounded to a double before
  \<open>Math.round\<close> is taken, and a \<open>size\<close> of 0 gives an infinity or \<open>NaN\<close>; with
  1,048,576 bytes and blocks of 4096 bytes the size is 1,044,480.
\<close>

theorem reservation_report:
  assumes "lookup w (kresolve w (path_diskio d)) = Some (File c)"
    and "lookup w (kresolve w (path_folder d)) = Some n"
    and "shell_word (path_folder d)"
  shows "\<exists>r. information_diskio d w = Inr r
          \<and> report_size r = RESERVED_SIZE d - optimal d
          \<and> available r = int (length c)
          \<and> used r = int (usage w (kresolve w (path_folder d))) - int (length c)
          \<and> capacity r =
               number_string
                 (Math_round
                    (minus_double 100
                       (times_double (divide_double (used r) (report_size r)) 100)))
               @ ''%''
          \<and> (RESERVED_SIZE d = 1048576 \<and> optimal d = 4096 \<longrightarrow> report_size r = 1044480)"
  using assms
  by (simp add: information_diskio_def size_diskio_def stat_size_def size_folder_def du_sb_def
      node_size_def capacity_percent_def Let_def)

theorem reservation_report_witness:
  "lookup ex_world (kresolve ex_world (path_diskio big_disk)) = Some (File (replicate 90 0))
   \<and> lookup ex_world (kresolve ex_world (path_folder big_disk)) = Some Dir
   \<and> shell_word (path_folder big_disk)
   \<and> RESERVED_SIZE big_disk = 1048576 \<and> optimal big_disk = 4096
   \<and> information_diskio big_disk ex_world =
       Inr \<lparr>report_size = 1044480, used = 10, available = 90, capacity = ''100%''\<rparr>"
proof -
  have h1: "lookup ex_world (kresolve ex_world (path_diskio big_disk))
              = Some (File (replicate 90 0))"
    by (simp add: big_disk_def ex_sentinel_path) (simp add: lookup_def ex_world_def)
  have h2: "lookup ex_world (kresolve ex_world (path_folder big_disk)) = Some Dir"
    by (simp add: big_disk_def ex_folder_path) (simp add: lookup_def ex_world_def)
  have h3: "shell_word (path_folder big_disk)" by code_simp
  have h4: "RESERVED_SIZE big_disk = 1048576 \<and> optimal big_disk = 4096"
    by (simp add: big_disk_def)
  have h5: "usage ex_world (kresolve ex_world (path_folder big_disk)) = 100"
    by (simp add: big_disk_def ex_folder_path ex_usage)
  have h6: "number_string
              (Math_round (minus_double 100 (times_double (divide_double 10 1044480) 100)))
            @ ''%'' = ''100%''"
    by code_simp
  from reservation_report [OF h1 h2 h3] obtain r where
    r: "information_diskio big_disk ex_world = Inr r"
       "report_size r = RESERVED_SIZE big_disk - optimal big_disk"
       "available r = int (length (replicate 90 (0::byte)))"
       "used r = int (usage ex_world (kresolve ex_world (path_folder big_disk)))
                   - int (length (replicate 90 (0::byte)))"
       "capacity r =
          number_string
            (Math_round
               (minus_double 100 (times_double (divide_double (used r) (report_size r)) 100)))
          @ ''%''"
    by blast
  have "r = \<lparr>report_size = 1044480, used = 10, available = 90, capacity = ''100%''\<rparr>"
    using r h4 h5 h6 by (cases r) simp
  then show ?thesis using h1 h2 h3 h4 r(1) by simp
qed

text \<open>
  The claim as stated fails where the exact value of \<open>100 - (used / size) * 100\<close> lies
  halfway between two integers. On the ready instance with a capacity of 204 bytes and
  blocks of 4 bytes, made for a folder that holds a file of 107 bytes, \<open>used\<close> is 109
  and \<open>size\<close> is 200: the exact
  value is 45.5, which rounds to 46 (upwards, as \<open>Math.round\<close> does, and to the even
  integer as well); the product is rounded to the double next above 54.5, the
  difference from 100 is then below 45.5, and the report says 45.
\<close>

theorem capacity_double_counterexample:
  "new_DiskIO ex_tie_root ''/data'' 204 = (Inr tie_disk, ex_tie)
   \<and> information_diskio tie_disk ex_tie =
       Inr \<lparr>report_size = 200, used = 109, available = 95, capacity = ''45%''\<rparr>
   \<and> 100 - (109 / 200) * 100 = (91 / 2 :: rat)
   \<and> \<lfloor>91 / 2 + 1 / 2 :: rat\<rfloor> = 46
   \<and> round_even (91 / 2) = 46"
  by code_simp

text \<open>
  The same at 4107 bytes used of 7400: the exact value is 44.5 and the report says 44.
\<close>

lemma capacity_4107_7400:
  "capacity_percent 4107 7400 = Num 44 \<and> 100 - (4107 / 7400) * 100 = (89 / 2 :: rat)"
  by code_simp

text \<open>A \<open>size\<close> of 0: the capacity is an infinity, or \<open>NaN\<close> when nothing is used.\<close>

lemma capacity_size_0:
  "number_string (capacity_percent 5 0) @ ''%'' = ''-Infinity%''
   \<and> number_string (capacity_percent (- 5) 0) @ ''%'' = ''Infinity%''
   \<and> number_string (capacity_percent 0 0) @ ''%'' = ''NaN%''"
  by code_simp

section \<open>Writing no bytes\<close>

text \<open>
  C10. When the sentinel is a file, \<open>write\<close> with an empty buffer returns for every
  handle and every position: the one call it makes is the \<open>truncate\<close> of the sentinel to
  the length it has, no chunk is written, and no file changes.
\<close>

theorem write_empty_data:
  assumes "lookup w (kresolve w (path_diskio d)) = Some (File c)"
  shows "\<exists>w'. diskio_write d fh [] position w = Some (Inr (), w')
           \<and> trace w' = trace w @ [Truncate (kresolve w (path_diskio d)) (length c)]
           \<and> size_diskio d w = Inr (int (length c))
           \<and> size_diskio d w' = Inr (int (length c))
           \<and> (\<forall>p. lookup w' p = lookup w p)"
proof -
  let ?p = "kresolve w (path_diskio d)"
  let ?w' = "w\<lparr>nodes := AList.update ?p (File c) (nodes w),
                trace := trace w @ [Truncate ?p (length c)]\<rparr>"
  have nr: "?p \<noteq> []" using assms by (rule lookup_File_nonroot)
  have sz: "size_diskio d w = Inr (int (length c))"
    using assms by (simp add: size_diskio_def stat_size_def node_size_def)
  have al: "allocate d 0 w = (Inr (), ?w')"
    using assms sz by (simp add: allocate_def fs_truncate_def set_length_def Let_def)
  have lp: "write_loop d fh [] position (ceil_div 0 (optimal d)) 0 ?w' = Some (Inr (), ?w')"
    by (subst write_loop.simps) (simp add: ceil_div_def less_number_def)
  have wr: "diskio_write d fh [] position w = Some (Inr (), ?w')"
    by (simp add: diskio_write_def al lp)
  have lk: "\<forall>q. lookup ?w' q = lookup w q"
    using assms nr by (simp add: lookup_update) (simp add: lookup_def)
  have sz': "size_diskio d ?w' = Inr (int (length c))"
    using assms lk by (simp add: size_diskio_def stat_size_def node_size_def)
  show ?thesis using wr sz sz' lk by (intro exI [of _ ?w']) simp
qed

theorem write_empty_data_witness:
  "lookup ex_world (kresolve ex_world (path_diskio ex_disk)) = Some (File (replicate 90 0))
   \<and> (\<exists>w'. diskio_write ex_disk 3 [] 7 ex_world = Some (Inr (), w')
           \<and> trace w' = trace ex_world @ [Truncate (kresolve ex_world (path_diskio ex_disk)) 90]
           \<and> size_diskio ex_disk w' = Inr 90)"
proof -
  have h: "lookup ex_world (kresolve ex_world (path_diskio ex_disk))
             = Some (File (replicate 90 0))"
    by (simp add: ex_disk_def ex_sentinel_path) (simp add: lookup_def ex_world_def)
  show ?thesis using h write_empty_data [OF h, of 3 7] by auto
qed

end
